theory Spec2Isabelle
  imports
    Complex_Main
    "HOL-Library.Sublist"
    "HOL-Library.List_Lexorder"
    "HOL-Library.Char_ord"
    "HOL-Library.Word"
begin

section \<open>Employee records\<close>

text \<open>
  The TypeScript interfaces \<^verbatim>\<open>Employee\<close> of \<^verbatim>\<open>EmployeeList.tsx\<close>,
  \<^verbatim>\<open>EmployeeDialog.tsx\<close> and \<^verbatim>\<open>useEmployeeCache.ts\<close>, and the table
  \<^verbatim>\<open>public.employees\<close> of the migrations, share their columns. The record
  \<open>dataToSubmit\<close> holds the eight columns the edit dialog submits, \<open>keyed\<close> adds the
  primary key (the field \<^verbatim>\<open>id\<close>, written \<open>id'\<close> here), \<open>employee\<close> is the
  client-side object (with the optional joined \<^verbatim>\<open>manager\<close>), and \<open>employee_row\<close>
  is a row of the table. A JavaScript \<^verbatim>\<open>number\<close> and a \<^verbatim>\<open>DECIMAL(12, 2)\<close> are
  both read as \<open>real\<close>; \<^verbatim>\<open>null\<close> and \<^verbatim>\<open>undefined\<close> are \<open>None\<close>. Time
  stamps (\<^verbatim>\<open>Date.now()\<close>, \<^verbatim>\<open>NOW()\<close>) are natural numbers.
\<close>

record dataToSubmit =
  employee_number :: string
  first_name :: string
  last_name :: string
  email :: "string option"
  birth_date :: string
  salary :: real
  role :: string
  manager_id :: "string option"

record keyed = dataToSubmit +
  id' :: string

record employee = keyed +
  manager :: "(string \<times> string) option"

record employee_row = keyed +
  created_at :: "nat option"
  updated_at :: "nat option"
  created_by :: "string option"

section \<open>The remote store as the client sees it\<close>

text \<open>
  Every call \<^verbatim>\<open>supabase.from("employees")...\<close> of the client is a \<open>request\<close>; the
  object handed to \<^verbatim>\<open>insert\<close> or \<^verbatim>\<open>update\<close> is either the dialog's
  \<^verbatim>\<open>dataToSubmit\<close> or a whole employee object. The answer \<^verbatim>\<open>{ data, error }\<close>
  is a \<open>response\<close>. The remote store itself is external to the client: it is a
  parameter \<open>exec\<close> that maps its state and a request to an answer and its next state.
\<close>

datatype body = Fields dataToSubmit | Obj employee

datatype request =
    Insert body
  | UpdateEq body string
  | DeleteEq string
  | SelectEmployees

datatype response = Failed string | Rows "employee list"

type_synonym 'r exec = "'r \<Rightarrow> request \<Rightarrow> response \<times> 'r"

section \<open>Pending operations and the application state\<close>

datatype operation = Create | Update | Delete

record pending_op =
  operation :: operation
  employee :: employee
  timestamp :: nat

text \<open>
  The state threaded through the handlers: the two object stores of the IndexedDB
  database \<^verbatim>\<open>EmployeeDB\<close>, the remote store with the log of the requests sent to it,
  the connectivity signal, and the React state of \<^verbatim>\<open>EmployeeList\<close> that the handlers
  read or write.

  \<^item> \<open>idb_opens\<close> says whether \<^verbatim>\<open>openDB()\<close> resolves; when it rejects, each cache
    function takes its \<^verbatim>\<open>catch\<close> branch, which only logs to the console.
  \<^item> \<open>employees_store\<close> is the object store \<^verbatim>\<open>employees\<close> (key path \<^verbatim>\<open>id\<close>), kept
    in key order, the order in which \<^verbatim>\<open>getAll()\<close> returns it.
  \<^item> \<open>pending_store\<close> is the object store \<^verbatim>\<open>pending_operations\<close>. Its keys come from
    the store's key generator (\<^verbatim>\<open>autoIncrement: true\<close>), which only counts upwards, so
    the key order of \<^verbatim>\<open>getAll()\<close> is the order in which the records were added.
  Toasts and console output are not part of the state.
\<close>

record 'r app =
  idb_opens :: bool
  employees_store :: "employee list"
  pending_store :: "pending_op list"
  remote :: 'r
  remote_log :: "(request \<times> response) list"
  isOnline :: bool
  employees :: "employee list"
  pendingCount :: nat
  syncing :: bool
  loading :: bool

subsection \<open>The cache hook \<^verbatim>\<open>useEmployeeCache\<close>\<close>

fun idb_put :: "employee \<Rightarrow> employee list \<Rightarrow> employee list" where
  "idb_put e [] = [e]"
| "idb_put e (x # xs) =
     (if id' e < id' x then e # x # xs
      else if id' e = id' x then e # xs
      else x # idb_put e xs)"

definition idb_delete :: "string \<Rightarrow> employee list \<Rightarrow> employee list" where
  "idb_delete k xs = filter (\<lambda>x. id' x \<noteq> k) xs"

definition saveToCache :: "employee list \<Rightarrow> 'r app \<Rightarrow> 'r app" where
  "saveToCache es s =
     (if idb_opens s then s\<lparr>employees_store := fold idb_put es []\<rparr> else s)"

definition getFromCache :: "'r app \<Rightarrow> employee list" where
  "getFromCache s = (if idb_opens s then employees_store s else [])"

definition addPendingOperation ::
  "operation \<Rightarrow> employee \<Rightarrow> nat \<Rightarrow> 'r app \<Rightarrow> 'r app" where
  "addPendingOperation opn e now s =
     (if idb_opens s
      then s\<lparr>pending_store :=
               pending_store s @ [\<lparr>operation = opn, employee = e, timestamp = now\<rparr>]\<rparr>
      else s)"

definition getPendingOperations :: "'r app \<Rightarrow> pending_op list" where
  "getPendingOperations s = (if idb_opens s then pending_store s else [])"

definition clearPendingOperations :: "'r app \<Rightarrow> 'r app" where
  "clearPendingOperations s = (if idb_opens s then s\<lparr>pending_store := []\<rparr> else s)"

definition addToLocalDB :: "employee \<Rightarrow> 'r app \<Rightarrow> 'r app" where
  "addToLocalDB e s =
     (if idb_opens s then s\<lparr>employees_store := idb_put e (employees_store s)\<rparr> else s)"

definition updateInLocalDB :: "employee \<Rightarrow> 'r app \<Rightarrow> 'r app" where
  "updateInLocalDB e s =
     (if idb_opens s then s\<lparr>employees_store := idb_put e (employees_store s)\<rparr> else s)"

definition deleteFromLocalDB :: "string \<Rightarrow> 'r app \<Rightarrow> 'r app" where
  "deleteFromLocalDB k s =
     (if idb_opens s then s\<lparr>employees_store := idb_delete k (employees_store s)\<rparr> else s)"

subsection \<open>\<^verbatim>\<open>EmployeeList\<close>: fetching, the sync engine, deleting\<close>

definition supabase :: "'r exec \<Rightarrow> request \<Rightarrow> 'r app \<Rightarrow> response \<times> 'r app" where
  "supabase exec req s =
     (case exec (remote s) req of
        (resp, r') \<Rightarrow> (resp, s\<lparr>remote := r', remote_log := remote_log s @ [(req, resp)]\<rparr>))"

definition checkPendingOperations :: "'r app \<Rightarrow> 'r app" where
  "checkPendingOperations s = s\<lparr>pendingCount := length (getPendingOperations s)\<rparr>"

definition fetchEmployees :: "'r exec \<Rightarrow> 'r app \<Rightarrow> 'r app" where
  "fetchEmployees exec s =
     (let s1 = s\<lparr>loading := True\<rparr>;
          cachedData = getFromCache s1;
          s2 = (if cachedData \<noteq> [] then s1\<lparr>employees := cachedData, loading := False\<rparr>
                else s1);
          s3 = (if isOnline s2
                then (case supabase exec SelectEmployees s2 of
                        (Failed msg, s') \<Rightarrow> s'
                      | (Rows data, s') \<Rightarrow> saveToCache data (s'\<lparr>employees := data\<rparr>))
                else s2)
      in s3\<lparr>loading := False\<rparr>)"

definition request_of :: "pending_op \<Rightarrow> request" where
  "request_of p =
     (case operation p of
        Create \<Rightarrow> Insert (Obj (employee p))
      | Update \<Rightarrow> UpdateEq (Obj (employee p)) (id' (employee p))
      | Delete \<Rightarrow> DeleteEq (id' (employee p)))"

text \<open>
  The \<^verbatim>\<open>for (const op of pending)\<close> loop of \<^verbatim>\<open>syncPendingOperations\<close>. The result
  is \<open>False\<close> when the \<^verbatim>\<open>catch\<close> branch ended the function, \<open>True\<close> when the loop ran
  to its end.
\<close>

fun replay :: "'r exec \<Rightarrow> pending_op list \<Rightarrow> 'r app \<Rightarrow> bool \<times> 'r app" where
  "replay exec [] s = (True, s)"
| "replay exec (p # ps) s =
     (case supabase exec (request_of p) s of
        (Failed msg, s') \<Rightarrow> (False, s'\<lparr>syncing := False\<rparr>)
      | (Rows data, s') \<Rightarrow> replay exec ps s')"

definition syncPendingOperations :: "'r exec \<Rightarrow> 'r app \<Rightarrow> 'r app" where
  "syncPendingOperations exec s =
     (let s1 = s\<lparr>syncing := True\<rparr>;
          pending = getPendingOperations s1
      in if pending = [] then s1\<lparr>syncing := False\<rparr>
         else (case replay exec pending s1 of
                 (False, s2) \<Rightarrow> s2
               | (True, s2) \<Rightarrow>
                   fetchEmployees exec
                     ((clearPendingOperations s2)\<lparr>pendingCount := 0, syncing := False\<rparr>)))"

text \<open>
  The effect with dependency \<^verbatim>\<open>[isOnline]\<close> runs when the signal changes; the
  browser's \<^verbatim>\<open>online\<close> and \<^verbatim>\<open>offline\<close> events set the signal.
\<close>

definition reconnect_effect :: "'r exec \<Rightarrow> 'r app \<Rightarrow> 'r app" where
  "reconnect_effect exec s =
     (if isOnline s \<and> pendingCount s > 0 then syncPendingOperations exec s else s)"

definition handleOnline :: "'r exec \<Rightarrow> 'r app \<Rightarrow> 'r app" where
  "handleOnline exec s =
     (if isOnline s then s else reconnect_effect exec (s\<lparr>isOnline := True\<rparr>))"

definition handleOffline :: "'r exec \<Rightarrow> 'r app \<Rightarrow> 'r app" where
  "handleOffline exec s =
     (if isOnline s then reconnect_effect exec (s\<lparr>isOnline := False\<rparr>) else s)"

text \<open>
  \<^verbatim>\<open>handleDelete\<close>; \<open>confirmed\<close> is the answer of the \<^verbatim>\<open>confirm\<close> box and \<open>now\<close>
  the value of \<^verbatim>\<open>Date.now()\<close> when the operation is queued.
\<close>

definition handleDelete :: "'r exec \<Rightarrow> bool \<Rightarrow> nat \<Rightarrow> string \<Rightarrow> 'r app \<Rightarrow> 'r app" where
  "handleDelete exec confirmed now k s =
     (if \<not> confirmed then s
      else (case find (\<lambda>e. id' e = k) (employees s) of
              None \<Rightarrow> s
            | Some emp \<Rightarrow>
                if isOnline s
                then (case supabase exec (DeleteEq k) s of
                        (Failed msg, s') \<Rightarrow> s'
                      | (Rows data, s') \<Rightarrow> fetchEmployees exec s')
                else fetchEmployees exec
                       (checkPendingOperations
                          (addPendingOperation Delete emp now (deleteFromLocalDB k s)))))"

subsection \<open>\<^verbatim>\<open>EmployeeDialog\<close>: submitting the form\<close>

text \<open>
  The dialog's form state (all fields are strings). \<^verbatim>\<open>parseFloat\<close> and the e-mail
  test of \<^verbatim>\<open>z.string().email()\<close> belong to the platform and to the zod library; both
  are parameters (\<open>parseFloat\<close> answers \<open>None\<close> for \<^verbatim>\<open>NaN\<close>).
\<close>

record formData =
  form_employee_number :: string
  form_first_name :: string
  form_last_name :: string
  form_email :: string
  form_birth_date :: string
  form_salary :: string
  form_role :: string
  form_manager_id :: string

definition employeeSchema ::
  "(string \<Rightarrow> real option) \<Rightarrow> (string \<Rightarrow> bool) \<Rightarrow> formData \<Rightarrow> bool" where
  "employeeSchema parseFloat is_email f \<longleftrightarrow>
     length (form_employee_number f) \<ge> 1 \<and>
     length (form_first_name f) \<ge> 1 \<and>
     length (form_last_name f) \<ge> 1 \<and>
     (is_email (form_email f) \<or> form_email f = []) \<and>
     length (form_birth_date f) \<ge> 1 \<and>
     (case parseFloat (form_salary f) of None \<Rightarrow> False | Some x \<Rightarrow> x \<ge> 0) \<and>
     length (form_role f) \<ge> 1"

text \<open>\<^verbatim>\<open>x || null\<close> on a string: the empty string is falsy.\<close>

definition or_null :: "string \<Rightarrow> string option" where
  "or_null x = (if x = [] then None else Some x)"

definition dataToSubmit_of :: "(string \<Rightarrow> real option) \<Rightarrow> formData \<Rightarrow> dataToSubmit" where
  "dataToSubmit_of parseFloat f =
     \<lparr>employee_number = form_employee_number f,
      first_name = form_first_name f,
      last_name = form_last_name f,
      email = or_null (form_email f),
      birth_date = form_birth_date f,
      salary = (case parseFloat (form_salary f) of None \<Rightarrow> 0 | Some x \<Rightarrow> x),
      role = form_role f,
      manager_id = or_null (form_manager_id f)\<rparr>"

text \<open>\<^verbatim>\<open>{ ...employee, ...dataToSubmit }\<close> and \<^verbatim>\<open>{ ...dataToSubmit, id: crypto.randomUUID() }\<close>.\<close>

definition updatedEmployee :: "employee \<Rightarrow> dataToSubmit \<Rightarrow> employee" where
  "updatedEmployee emp d =
     emp\<lparr>employee_number := employee_number d,
         first_name := first_name d,
         last_name := last_name d,
         email := email d,
         birth_date := birth_date d,
         salary := salary d,
         role := role d,
         manager_id := manager_id d\<rparr>"

definition newEmployee :: "dataToSubmit \<Rightarrow> string \<Rightarrow> employee" where
  "newEmployee d uuid =
     \<lparr>employee_number = employee_number d,
      first_name = first_name d,
      last_name = last_name d,
      email = email d,
      birth_date = birth_date d,
      salary = salary d,
      role = role d,
      manager_id = manager_id d,
      id' = uuid,
      manager = None\<rparr>"

definition handleDialogClose :: "'r exec \<Rightarrow> bool \<Rightarrow> 'r app \<Rightarrow> 'r app" where
  "handleDialogClose exec shouldRefresh s =
     (if shouldRefresh then fetchEmployees exec (checkPendingOperations s) else s)"

text \<open>
  \<^verbatim>\<open>handleSubmit\<close>: \<open>prop\<close> is the dialog's \<^verbatim>\<open>employee\<close> property (\<open>None\<close> when a
  new employee is entered), \<open>uuid\<close> the value of \<^verbatim>\<open>crypto.randomUUID()\<close>, \<open>now\<close>
  the value of \<^verbatim>\<open>Date.now()\<close>. When validation fails the function returns after
  the toast. \<^verbatim>\<open>onClose\<close> is the list's \<^verbatim>\<open>handleDialogClose\<close>.
\<close>

definition handleSubmit ::
  "'r exec \<Rightarrow> (string \<Rightarrow> real option) \<Rightarrow> (string \<Rightarrow> bool) \<Rightarrow> formData \<Rightarrow>
   employee option \<Rightarrow> string \<Rightarrow> nat \<Rightarrow> 'r app \<Rightarrow> 'r app" where
  "handleSubmit exec parseFloat is_email f prop uuid now s =
     (if \<not> employeeSchema parseFloat is_email f then s
      else
        let d = dataToSubmit_of parseFloat f in
        (case prop of
           Some emp \<Rightarrow>
             if isOnline s
             then (case supabase exec (UpdateEq (Fields d) (id' emp)) s of
                     (Failed msg, s') \<Rightarrow> s'
                   | (Rows data, s') \<Rightarrow> handleDialogClose exec True s')
             else handleDialogClose exec True
                    (addPendingOperation Update (updatedEmployee emp d) now
                       (updateInLocalDB (updatedEmployee emp d) s))
         | None \<Rightarrow>
             if isOnline s
             then (case supabase exec (Insert (Fields d)) s of
                     (Failed msg, s') \<Rightarrow> s'
                   | (Rows data, s') \<Rightarrow> handleDialogClose exec True s')
             else handleDialogClose exec True
                    (addPendingOperation Create (newEmployee d uuid) now
                       (addToLocalDB (newEmployee d uuid) s))))"

section \<open>The table \<^verbatim>\<open>public.employees\<close>, its constraints and its triggers\<close>

text \<open>
  The migrations declare the table with a primary key on \<^verbatim>\<open>id\<close>, \<^verbatim>\<open>UNIQUE\<close> on
  \<^verbatim>\<open>employee_number\<close> and on \<^verbatim>\<open>email\<close>, \<^verbatim>\<open>CHECK (salary >= 0)\<close>, a foreign key
  from \<^verbatim>\<open>manager_id\<close> to the table itself (\<^verbatim>\<open>ON DELETE SET NULL\<close>) and one from
  \<^verbatim>\<open>created_by\<close> to \<^verbatim>\<open>auth.users\<close>, and two row triggers:
  \<^verbatim>\<open>prevent_self_reporting\<close> (\<^verbatim>\<open>BEFORE INSERT OR UPDATE\<close>) and
  \<^verbatim>\<open>set_updated_at\<close> (\<^verbatim>\<open>BEFORE UPDATE\<close>). The \<^verbatim>\<open>NOT NULL\<close> columns are the
  fields that are not options.
\<close>

datatype pg_error =
    RaiseException string
  | CheckViolation string
  | UniqueViolation string
  | ForeignKeyViolation string

record pg =
  employees_table :: "employee_row list"
  auth_users :: "string list"

text \<open>
  The trigger functions. In \<^verbatim>\<open>NEW.manager_id = NEW.id\<close> a null \<^verbatim>\<open>manager_id\<close>
  makes the comparison null, which \<^verbatim>\<open>IF\<close> takes as false.
\<close>

definition check_manager_not_self :: "employee_row \<Rightarrow> pg_error + employee_row" where
  "check_manager_not_self NEW =
     (if manager_id NEW = Some (id' NEW)
      then Inl (RaiseException ''An employee cannot be their own manager'')
      else Inr NEW)"

definition update_updated_at :: "nat \<Rightarrow> employee_row \<Rightarrow> pg_error + employee_row" where
  "update_updated_at now NEW = Inr (NEW\<lparr>updated_at := Some now\<rparr>)"

text \<open>Row triggers of one event fire in the order of their names.\<close>

definition before_insert :: "nat \<Rightarrow> employee_row \<Rightarrow> pg_error + employee_row" where
  "before_insert now NEW = check_manager_not_self NEW"

definition before_update :: "nat \<Rightarrow> employee_row \<Rightarrow> pg_error + employee_row" where
  "before_update now NEW =
     (case check_manager_not_self NEW of
        Inl e \<Rightarrow> Inl e
      | Inr r \<Rightarrow> update_updated_at now r)"

text \<open>
  The declared constraints, checked for the row \<open>r\<close> that is to be stored beside the
  rows \<open>others\<close>: the check constraint, the three unique indexes (a null e-mail
  never collides), and the foreign keys.
\<close>

definition fk_manager_ok :: "employee_row list \<Rightarrow> bool" where
  "fk_manager_ok rows \<longleftrightarrow>
     list_all (\<lambda>x. case manager_id x of None \<Rightarrow> True | Some m \<Rightarrow> m \<in> set (map id' rows)) rows"

definition constraint_error ::
  "pg \<Rightarrow> employee_row list \<Rightarrow> employee_row \<Rightarrow> pg_error option" where
  "constraint_error db others r =
     (if salary r < 0 then Some (CheckViolation ''employees_salary_check'')
      else if id' r \<in> set (map id' others) then Some (UniqueViolation ''employees_pkey'')
      else if employee_number r \<in> set (map employee_number others)
        then Some (UniqueViolation ''employees_employee_number_key'')
      else if email r \<noteq> None \<and> email r \<in> set (map email others)
        then Some (UniqueViolation ''employees_email_key'')
      else if \<not> fk_manager_ok (r # others)
        then Some (ForeignKeyViolation ''employees_manager_id_fkey'')
      else if (case created_by r of None \<Rightarrow> False | Some u \<Rightarrow> u \<notin> set (auth_users db))
        then Some (ForeignKeyViolation ''employees_created_by_fkey'')
      else None)"

text \<open>
  The three statements the client issues. \<open>INSERT r\<close> carries the row with its
  defaults filled in; \<open>UPDATE k f\<close> is \<^verbatim>\<open>UPDATE employees SET ... WHERE id = k\<close> with
  the assignment \<open>f\<close> from the old row to the new one; \<open>DELETE k\<close> is
  \<^verbatim>\<open>DELETE FROM employees WHERE id = k\<close>. \<open>now\<close> is the value of \<^verbatim>\<open>NOW()\<close>. A
  statement that raises leaves the table as it was (\<open>Inl\<close> carries no table).
\<close>

datatype stmt =
    INSERT employee_row
  | UPDATE string "employee_row \<Rightarrow> employee_row"
  | DELETE string

definition pg_insert :: "nat \<Rightarrow> employee_row \<Rightarrow> pg \<Rightarrow> pg_error + pg" where
  "pg_insert now NEW db =
     (case before_insert now NEW of
        Inl e \<Rightarrow> Inl e
      | Inr r \<Rightarrow>
          (case constraint_error db (employees_table db) r of
             Some e \<Rightarrow> Inl e
           | None \<Rightarrow> Inr (db\<lparr>employees_table := employees_table db @ [r]\<rparr>)))"

definition pg_update ::
  "nat \<Rightarrow> string \<Rightarrow> (employee_row \<Rightarrow> employee_row) \<Rightarrow> pg \<Rightarrow> pg_error + pg" where
  "pg_update now k f db =
     (case find (\<lambda>x. id' x = k) (employees_table db) of
        None \<Rightarrow> Inr db
      | Some OLD \<Rightarrow>
          (case before_update now (f OLD) of
             Inl e \<Rightarrow> Inl e
           | Inr r \<Rightarrow>
               (case constraint_error db (filter (\<lambda>x. id' x \<noteq> k) (employees_table db)) r of
                  Some e \<Rightarrow> Inl e
                | None \<Rightarrow>
                    Inr (db\<lparr>employees_table :=
                             map (\<lambda>x. if id' x = k then r else x) (employees_table db)\<rparr>))))"

text \<open>
  \<^verbatim>\<open>ON DELETE SET NULL\<close> updates the rows that name the deleted row as manager;
  that update fires the \<^verbatim>\<open>BEFORE UPDATE\<close> triggers on each of them.
\<close>

definition set_null :: "nat \<Rightarrow> string \<Rightarrow> employee_row \<Rightarrow> employee_row" where
  "set_null now k x =
     (if manager_id x = Some k
      then (case before_update now (x\<lparr>manager_id := None\<rparr>) of Inl e \<Rightarrow> x | Inr r \<Rightarrow> r)
      else x)"

definition pg_delete :: "nat \<Rightarrow> string \<Rightarrow> pg \<Rightarrow> pg_error + pg" where
  "pg_delete now k db =
     Inr (db\<lparr>employees_table :=
              map (set_null now k) (filter (\<lambda>x. id' x \<noteq> k) (employees_table db))\<rparr>)"

definition pg_exec :: "nat \<Rightarrow> stmt \<Rightarrow> pg \<Rightarrow> pg_error + pg" where
  "pg_exec now st db =
     (case st of
        INSERT r \<Rightarrow> pg_insert now r db
      | UPDATE k f \<Rightarrow> pg_update now k f db
      | DELETE k \<Rightarrow> pg_delete now k db)"

text \<open>A history of statements, each with its time; a failed statement changes nothing.\<close>

fun pg_run :: "(nat \<times> stmt) list \<Rightarrow> pg \<Rightarrow> pg" where
  "pg_run [] db = db"
| "pg_run ((now, st) # rest) db =
     (case pg_exec now st db of Inl e \<Rightarrow> pg_run rest db | Inr db' \<Rightarrow> pg_run rest db')"

subsection \<open>The table behind the client's requests\<close>

text \<open>
  The remote store that the migrations define, as an instance of \<open>exec\<close>: its state
  is the database with a clock, \<open>gen_random_uuid\<close> (the column default of \<^verbatim>\<open>id\<close>)
  is a parameter. An inserted object leaves \<^verbatim>\<open>created_at\<close> and \<^verbatim>\<open>updated_at\<close> to
  their default \<^verbatim>\<open>NOW()\<close> and \<^verbatim>\<open>created_by\<close> null; the joined \<^verbatim>\<open>manager\<close> of an
  object is not a column and is left out. The select is the one of
  \<^verbatim>\<open>fetchEmployees\<close>: all rows by \<^verbatim>\<open>employee_number\<close>, each with the names of its
  manager.
\<close>

definition message :: "pg_error \<Rightarrow> string" where
  "message e =
     (case e of
        RaiseException m \<Rightarrow> m
      | CheckViolation c \<Rightarrow> ''new row violates check constraint '' @ c
      | UniqueViolation c \<Rightarrow> ''duplicate key value violates unique constraint '' @ c
      | ForeignKeyViolation c \<Rightarrow> ''insert or update violates foreign key constraint '' @ c)"

definition assign_columns :: "dataToSubmit \<Rightarrow> employee_row \<Rightarrow> employee_row" where
  "assign_columns d r =
     r\<lparr>employee_number := employee_number d,
       first_name := first_name d,
       last_name := last_name d,
       email := email d,
       birth_date := birth_date d,
       salary := salary d,
       role := role d,
       manager_id := manager_id d\<rparr>"

definition new_row :: "nat \<Rightarrow> string \<Rightarrow> employee_row" where
  "new_row now k =
     \<lparr>employee_number = [], first_name = [], last_name = [], email = None,
      birth_date = [], salary = 0, role = [], manager_id = None, id' = k,
      created_at = Some now, updated_at = Some now, created_by = None\<rparr>"

definition row_of_body :: "(nat \<Rightarrow> string) \<Rightarrow> nat \<Rightarrow> body \<Rightarrow> employee_row" where
  "row_of_body gen_random_uuid now b =
     (case b of
        Fields d \<Rightarrow> assign_columns d (new_row now (gen_random_uuid now))
      | Obj e \<Rightarrow> assign_columns (dataToSubmit.truncate e) (new_row now (id' e)))"

definition set_body :: "body \<Rightarrow> employee_row \<Rightarrow> employee_row" where
  "set_body b r =
     (case b of
        Fields d \<Rightarrow> assign_columns d r
      | Obj e \<Rightarrow> (assign_columns (dataToSubmit.truncate e) r)\<lparr>id' := id' e\<rparr>)"

definition joined :: "employee_row list \<Rightarrow> employee_row \<Rightarrow> employee" where
  "joined rows r =
     \<lparr>employee_number = employee_number r,
      first_name = first_name r,
      last_name = last_name r,
      email = email r,
      birth_date = birth_date r,
      salary = salary r,
      role = role r,
      manager_id = manager_id r,
      id' = id' r,
      manager =
        (case manager_id r of
           None \<Rightarrow> None
         | Some m \<Rightarrow> map_option (\<lambda>x. (first_name x, last_name x)) (find (\<lambda>x. id' x = m) rows))\<rparr>"

definition stmt_of :: "(nat \<Rightarrow> string) \<Rightarrow> nat \<Rightarrow> request \<Rightarrow> stmt option" where
  "stmt_of gen_random_uuid now req =
     (case req of
        Insert b \<Rightarrow> Some (INSERT (row_of_body gen_random_uuid now b))
      | UpdateEq b k \<Rightarrow> Some (UPDATE k (set_body b))
      | DeleteEq k \<Rightarrow> Some (DELETE k)
      | SelectEmployees \<Rightarrow> None)"

definition pg_remote :: "(nat \<Rightarrow> string) \<Rightarrow> (pg \<times> nat) exec" where
  "pg_remote gen_random_uuid st req =
     (case st of
        (db, now) \<Rightarrow>
          (case stmt_of gen_random_uuid now req of
             None \<Rightarrow>
               (Rows (map (joined (employees_table db))
                        (sort_key employee_number (employees_table db))),
                (db, Suc now))
           | Some st \<Rightarrow>
               (case pg_exec now st db of
                  Inl e \<Rightarrow> (Failed (message e), (db, Suc now))
                | Inr db' \<Rightarrow> (Rows [], (db', Suc now)))))"

section \<open>The hierarchy view\<close>

text \<open>
  \<^verbatim>\<open>buildHierarchyTree\<close> creates one node object per map key and links the objects
  by reference: a node pushed into its manager's \<^verbatim>\<open>subordinates\<close> still receives
  its own subordinates later. The node objects are therefore kept in a store, the
  \<^verbatim>\<open>employeeMap\<close> itself, whose keys serve as the references: \<open>employeeMap k\<close> is the
  node's data with the references of its subordinates, and \<open>roots\<close> is a list of
  references.
\<close>

type_synonym employeeMap = "string \<Rightarrow> (employee \<times> string list) option"

definition set_node :: "employee \<Rightarrow> employeeMap \<Rightarrow> employeeMap" where
  "set_node emp m = m(id' emp \<mapsto> (emp, []))"

text \<open>
  The body of the second \<^verbatim>\<open>forEach\<close>. In \<^verbatim>\<open>emp.manager_id && ...\<close> a null and an
  empty \<^verbatim>\<open>manager_id\<close> are both falsy.
\<close>

definition place :: "employee \<Rightarrow> employeeMap \<times> string list \<Rightarrow> employeeMap \<times> string list" where
  "place emp st =
     (case st of
        (m, roots) \<Rightarrow>
          (case m (id' emp) of
             None \<Rightarrow> (m, roots)
           | Some node \<Rightarrow>
               (case manager_id emp of
                  None \<Rightarrow> (m, roots @ [id' emp])
                | Some mid \<Rightarrow>
                    (case (if mid = [] then None else m mid) of
                       None \<Rightarrow> (m, roots @ [id' emp])
                     | Some (me, subs) \<Rightarrow> (m(mid \<mapsto> (me, subs @ [id' emp])), roots)))))"

definition link :: "employee list \<Rightarrow> employeeMap \<times> string list" where
  "link es = fold place es (fold set_node es Map.empty, [])"

text \<open>
  The forest that the node objects form below a reference, as a value. The object
  graph may be cyclic; the reading carries fuel and answers \<open>None\<close> when the fuel
  runs out (or a reference names no node).
\<close>

datatype tree = Node employee "tree list"

fun tree_of :: "employeeMap \<Rightarrow> nat \<Rightarrow> string \<Rightarrow> tree option" where
  "tree_of m 0 r = None"
| "tree_of m (Suc n) r =
     (case m r of
        None \<Rightarrow> None
      | Some (e, subs) \<Rightarrow> map_option (Node e) (those (map (tree_of m n) subs)))"

definition forest_of :: "employeeMap \<times> string list \<Rightarrow> nat \<Rightarrow> tree list option" where
  "forest_of g n = those (map (tree_of (fst g) n) (snd g))"

text \<open>ASCII letters and white space of \<^verbatim>\<open>toLowerCase\<close> and \<^verbatim>\<open>trim\<close>.\<close>

definition lower_char :: "char \<Rightarrow> char" where
  "lower_char c =
     (case map_of (zip ''ABCDEFGHIJKLMNOPQRSTUVWXYZ'' ''abcdefghijklmnopqrstuvwxyz'') c of
        None \<Rightarrow> c
      | Some d \<Rightarrow> d)"

definition toLowerCase :: "string \<Rightarrow> string" where
  "toLowerCase s = map lower_char s"



definition includes_str :: "string \<Rightarrow> string \<Rightarrow> bool" where
  "includes_str s t \<longleftrightarrow> sublist t s"

definition matches :: "employee \<Rightarrow> string \<Rightarrow> bool" where
  "matches node term \<longleftrightarrow>
     includes_str (toLowerCase (first_name node)) term \<or>
     includes_str (toLowerCase (last_name node)) term \<or>
     includes_str (toLowerCase (employee_number node)) term \<or>
     includes_str (toLowerCase (role node)) term"

fun filter_node :: "string \<Rightarrow> tree \<Rightarrow> tree option" where
  "filter_node term (Node e subs) =
     (let filteredSubordinates =
            map the (filter (\<lambda>x. x \<noteq> None) (map (filter_node term) subs))
      in if matches e term \<or> length filteredSubordinates > 0
         then Some (Node e filteredSubordinates)
         else None)"

definition filterHierarchy :: "tree list \<Rightarrow> string \<Rightarrow> tree list" where
  "filterHierarchy nodes term =
     map the (filter (\<lambda>x. x \<noteq> None) (map (filter_node term) nodes))"

text \<open>
  \<^verbatim>\<open>buildHierarchyTree\<close> reads the component state \<^verbatim>\<open>employees\<close> (\<open>emps\<close>) and \<^verbatim>\<open>searchTerm\<close>
  and sets \<^verbatim>\<open>hierarchyTree\<close>; with no employees it returns before setting it. The
  result is the new value of \<^verbatim>\<open>hierarchyTree\<close>, read with as much fuel as there
  are employees; \<open>None\<close> says that the objects below the roots are not a finite
  forest.
\<close>

definition buildHierarchyTree ::
  "employee list \<Rightarrow> string \<Rightarrow> tree list \<Rightarrow> tree list option" where
  "buildHierarchyTree emps searchTerm hierarchyTree =
     (if length emps = 0 then Some hierarchyTree
      else (case forest_of (link emps) (length emps) of
              None \<Rightarrow> None
            | Some roots \<Rightarrow>
                if searchTerm \<noteq> []
                then Some (filterHierarchy roots (toLowerCase searchTerm))
                else Some roots))"

fun nodes :: "tree \<Rightarrow> employee list" where
  "nodes (Node e ts) = e # concat (map nodes ts)"

fun subtrees :: "tree \<Rightarrow> tree list" where
  "subtrees (Node e ts) = Node e ts # concat (map subtrees ts)"

text \<open>
  The manager relation of a list, restricted to the ids of the list: the pairs of
  an employee's id and its \<^verbatim>\<open>manager_id\<close>.
\<close>

definition manager_rel :: "employee list \<Rightarrow> (string \<times> string) set" where
  "manager_rel es =
     set (concat (map (\<lambda>e. case manager_id e of
                              None \<Rightarrow> []
                            | Some m \<Rightarrow> if m \<in> set (map id' es) then [(id' e, m)] else []) es))"

text \<open>
  The same links seen from the employees, for the proofs: whether an employee has
  a manager in the list, the employees that name \<open>p\<close> as manager (in list order),
  the manager of an employee, its \<open>n\<close>-th ancestor, and the tree below an
  employee read with fuel \<open>n\<close>.
\<close>

definition has_manager :: "employee list \<Rightarrow> employee \<Rightarrow> bool" where
  "has_manager es e \<longleftrightarrow>
     (case manager_id e of None \<Rightarrow> False | Some m \<Rightarrow> m \<noteq> [] \<and> m \<in> set (map id' es))"

definition kids :: "employee list \<Rightarrow> employee \<Rightarrow> employee list" where
  "kids es p = filter (\<lambda>c. manager_id c = Some (id' p) \<and> id' p \<noteq> []) es"

definition mgr :: "employee list \<Rightarrow> employee \<Rightarrow> employee option" where
  "mgr es e =
     (case manager_id e of
        None \<Rightarrow> None
      | Some m \<Rightarrow> if m = [] then None else find (\<lambda>x. id' x = m) es)"

fun anc :: "employee list \<Rightarrow> nat \<Rightarrow> employee \<Rightarrow> employee option" where
  "anc es 0 e = Some e"
| "anc es (Suc n) e = (case anc es n e of None \<Rightarrow> None | Some y \<Rightarrow> mgr es y)"

fun sub :: "employee list \<Rightarrow> nat \<Rightarrow> employee \<Rightarrow> tree option" where
  "sub es 0 e = None"
| "sub es (Suc n) e = map_option (Node e) (those (map (sub es n) (kids es e)))"

fun root_of :: "tree \<Rightarrow> employee" where
  "root_of (Node e ts) = e"

section \<open>Gravatar addresses\<close>




section \<open>Observing a run\<close>

text \<open>
  The requests a handler sent are the entries it added to the request log.
  \<open>mutations\<close> keeps the inserts, updates and deletes (the select of
  \<^verbatim>\<open>fetchEmployees\<close> changes nothing remotely); a request \<open>succeeded\<close> when its
  answer carried no \<^verbatim>\<open>error\<close>.
\<close>

definition sent_since :: "'r app \<Rightarrow> 'r app \<Rightarrow> (request \<times> response) list" where
  "sent_since s s' = drop (length (remote_log s)) (remote_log s')"

definition mutations :: "(request \<times> response) list \<Rightarrow> (request \<times> response) list" where
  "mutations l = filter (\<lambda>x. fst x \<noteq> SelectEmployees) l"

definition succeeded :: "request \<times> response \<Rightarrow> bool" where
  "succeeded x = (case snd x of Failed m \<Rightarrow> False | Rows d \<Rightarrow> True)"

text \<open>
  The pending counter of \<^verbatim>\<open>EmployeeList\<close> is in step with the queue when it
  shows the number of records that \<^verbatim>\<open>getPendingOperations\<close> returns.
\<close>

definition counted :: "'r app \<Rightarrow> bool" where
  "counted s \<longleftrightarrow> pendingCount s = length (getPendingOperations s)"

section \<open>Sample data\<close>

definition ann :: employee where
  "ann = \<lparr>employee_number = ''E001'', first_name = ''Ann'', last_name = ''Lee'',
          email = Some ''ann@example.com'', birth_date = ''1980-01-01'', salary = 5000,
          role = ''CEO'', manager_id = None, id' = ''a1'', manager = None\<rparr>"

definition bob :: employee where
  "bob = \<lparr>employee_number = ''E002'', first_name = ''Bob'', last_name = ''Ray'',
          email = None, birth_date = ''1990-02-02'', salary = 3000,
          role = ''Clerk'', manager_id = Some ''a1'', id' = ''b2'', manager = None\<rparr>"

text \<open>An employee entered as her own manager.\<close>

definition eve :: employee where
  "eve = \<lparr>employee_number = ''E005'', first_name = ''Eve'', last_name = ''Fox'',
          email = None, birth_date = ''1995-05-05'', salary = 2000,
          role = ''Clerk'', manager_id = Some ''e5'', id' = ''e5'', manager = None\<rparr>"

definition uuid0 :: "nat \<Rightarrow> string" where
  "uuid0 n = ''00000000-0000-4000-8000-000000000000''"

text \<open>
  Two states of an offline client in front of an empty table: in \<open>queued\<close> three
  creations wait, the third of which the table will refuse; in \<open>queued2\<close> only the
  first two wait.
\<close>

definition queued :: "(pg \<times> nat) app" where
  "queued =
     \<lparr>idb_opens = True,
      employees_store = [ann, bob, eve],
      pending_store =
        [\<lparr>operation = Create, employee = ann, timestamp = 1\<rparr>,
         \<lparr>operation = Create, employee = bob, timestamp = 2\<rparr>,
         \<lparr>operation = Create, employee = eve, timestamp = 3\<rparr>],
      remote = (\<lparr>employees_table = [], auth_users = []\<rparr>, 0),
      remote_log = [],
      isOnline = False,
      employees = [ann, bob, eve],
      pendingCount = 3,
      syncing = False,
      loading = False\<rparr>"

definition queued2 :: "(pg \<times> nat) app" where
  "queued2 =
     \<lparr>idb_opens = True,
      employees_store = [ann, bob],
      pending_store =
        [\<lparr>operation = Create, employee = ann, timestamp = 1\<rparr>,
         \<lparr>operation = Create, employee = bob, timestamp = 2\<rparr>],
      remote = (\<lparr>employees_table = [], auth_users = []\<rparr>, 0),
      remote_log = [],
      isOnline = False,
      employees = [ann, bob],
      pendingCount = 2,
      syncing = False,
      loading = False\<rparr>"





text \<open>Rows of the table, and a table that holds Ann and Bob.\<close>

definition ann_row :: employee_row where
  "ann_row = \<lparr>employee_number = ''E001'', first_name = ''Ann'', last_name = ''Lee'',
              email = Some ''ann@example.com'', birth_date = ''1980-01-01'', salary = 5000,
              role = ''CEO'', manager_id = None, id' = ''a1'',
              created_at = Some 1, updated_at = Some 1, created_by = None\<rparr>"

definition bob_row :: employee_row where
  "bob_row = \<lparr>employee_number = ''E002'', first_name = ''Bob'', last_name = ''Ray'',
              email = None, birth_date = ''1990-02-02'', salary = 3000,
              role = ''Clerk'', manager_id = Some ''a1'', id' = ''b2'',
              created_at = Some 2, updated_at = Some 2, created_by = None\<rparr>"

text \<open>A row that names itself as manager, and a row with Ann's employee number.\<close>

definition eve_row :: employee_row where
  "eve_row = \<lparr>employee_number = ''E005'', first_name = ''Eve'', last_name = ''Fox'',
              email = None, birth_date = ''1995-05-05'', salary = 2000,
              role = ''Clerk'', manager_id = Some ''e5'', id' = ''e5'',
              created_at = Some 9, updated_at = Some 9, created_by = None\<rparr>"

definition dan_row :: employee_row where
  "dan_row = \<lparr>employee_number = ''E001'', first_name = ''Dan'', last_name = ''Kim'',
              email = None, birth_date = ''1985-04-04'', salary = 2500,
              role = ''Clerk'', manager_id = Some ''a1'', id' = ''d4'',
              created_at = Some 9, updated_at = Some 9, created_by = None\<rparr>"

definition table1 :: pg where
  "table1 = \<lparr>employees_table = [ann_row, bob_row], auth_users = []\<rparr>"

definition raise_salary :: "employee_row \<Rightarrow> employee_row" where
  "raise_salary r = r\<lparr>salary := 3500\<rparr>"

definition make_own_manager :: "employee_row \<Rightarrow> employee_row" where
  "make_own_manager r = r\<lparr>manager_id := Some (id' r)\<rparr>"

text \<open>The two unique keys of the table, as a property of a database state.\<close>

definition pg_inv :: "pg \<Rightarrow> bool" where
  "pg_inv db \<longleftrightarrow>
     distinct (map id' (employees_table db)) \<and>
     distinct (map employee_number (employees_table db))"



text \<open>Carl reports to Bob, who reports to Ann.\<close>

definition carl :: employee where
  "carl = \<lparr>employee_number = ''E004'', first_name = ''Carl'', last_name = ''Moe'',
           email = None, birth_date = ''1991-06-06'', salary = 2800,
           role = ''Clerk'', manager_id = Some ''b2'', id' = ''c4'', manager = None\<rparr>"

definition rank :: "string \<Rightarrow> nat" where
  "rank x = (if x = ''a1'' then 2 else if x = ''b2'' then 1 else 0)"

section \<open>The sync engine\<close>

lemmas run_defs =
  syncPendingOperations_def getPendingOperations_def Let_def
  supabase_def pg_remote_def stmt_of_def request_of_def pg_exec_def pg_insert_def
  before_insert_def check_manager_not_self_def row_of_body_def assign_columns_def
  new_row_def constraint_error_def fk_manager_ok_def message_def
  dataToSubmit.truncate_def fetchEmployees_def getFromCache_def saveToCache_def
  clearPendingOperations_def joined_def handleOnline_def reconnect_effect_def
  sent_since_def mutations_def succeeded_def

lemmas sample_defs = queued_def queued2_def ann_def bob_def eve_def

lemma request_of_mutation: "request_of p \<noteq> SelectEmployees"
  by (simp add: request_of_def split: operation.splits)

lemma supabase_frame:
  "supabase exec req s = (resp, s') \<Longrightarrow>
     remote_log s' = remote_log s @ [(req, resp)] \<and> pending_store s' = pending_store s \<and>
     idb_opens s' = idb_opens s \<and> employees_store s' = employees_store s \<and>
     isOnline s' = isOnline s \<and> pendingCount s' = pendingCount s \<and> employees s' = employees s"
  by (auto simp: supabase_def split: prod.splits)

lemma replay_True:
  "replay exec ps s = (True, s') \<Longrightarrow>
     (\<exists>l. remote_log s' = remote_log s @ l \<and> map fst l = map request_of ps \<and> list_all succeeded l) \<and>
     pending_store s' = pending_store s \<and> idb_opens s' = idb_opens s \<and>
     employees_store s' = employees_store s \<and> isOnline s' = isOnline s \<and>
     pendingCount s' = pendingCount s"
proof (induction ps arbitrary: s)
  case Nil
  then show ?case by simp
next
  case (Cons p ps)
  obtain resp s1 where sb: "supabase exec (request_of p) s = (resp, s1)"
    by (cases "supabase exec (request_of p) s")
  from Cons.prems sb obtain d where resp: "resp = Rows d" and rec: "replay exec ps s1 = (True, s')"
    by (cases resp) auto
  from Cons.IH [OF rec] obtain l where
    l: "remote_log s' = remote_log s1 @ l" "map fst l = map request_of ps" "list_all succeeded l"
    and fr: "pending_store s' = pending_store s1" "idb_opens s' = idb_opens s1"
      "employees_store s' = employees_store s1" "isOnline s' = isOnline s1"
      "pendingCount s' = pendingCount s1"
    by blast
  from supabase_frame [OF sb] l resp
  have "remote_log s' = remote_log s @ ((request_of p, resp) # l)"
    "map fst ((request_of p, resp) # l) = map request_of (p # ps)"
    "list_all succeeded ((request_of p, resp) # l)"
    by (simp_all add: succeeded_def)
  with fr supabase_frame [OF sb] show ?case by metis
qed

lemma replay_False:
  "replay exec ps s = (False, s') \<Longrightarrow>
     (\<exists>l n msg. n < length ps \<and>
        remote_log s' = remote_log s @ l @ [(request_of (ps ! n), Failed msg)] \<and>
        map fst l = map request_of (take n ps) \<and> list_all succeeded l) \<and>
     pending_store s' = pending_store s \<and> idb_opens s' = idb_opens s \<and>
     employees_store s' = employees_store s \<and> isOnline s' = isOnline s \<and>
     pendingCount s' = pendingCount s"
proof (induction ps arbitrary: s)
  case Nil
  then show ?case by simp
next
  case (Cons p ps)
  obtain resp s1 where sb: "supabase exec (request_of p) s = (resp, s1)"
    by (cases "supabase exec (request_of p) s")
  show ?case
  proof (cases resp)
    case (Failed msg)
    with Cons.prems sb have s': "s' = s1\<lparr>syncing := False\<rparr>" by simp
    have "0 < length (p # ps) \<and>
        remote_log s' = remote_log s @ [] @ [(request_of ((p # ps) ! 0), Failed msg)] \<and>
        map fst ([] :: (request \<times> response) list) = map request_of (take 0 (p # ps)) \<and>
        list_all succeeded []"
      using supabase_frame [OF sb] s' Failed by simp
    then have "\<exists>l n msg. n < length (p # ps) \<and>
        remote_log s' = remote_log s @ l @ [(request_of ((p # ps) ! n), Failed msg)] \<and>
        map fst l = map request_of (take n (p # ps)) \<and> list_all succeeded l"
      by blast
    with supabase_frame [OF sb] s' show ?thesis by simp
  next
    case (Rows d)
    with Cons.prems sb have rec: "replay exec ps s1 = (False, s')" by simp
    from Cons.IH [OF rec] obtain l n msg where
      l: "n < length ps" "remote_log s' = remote_log s1 @ l @ [(request_of (ps ! n), Failed msg)]"
        "map fst l = map request_of (take n ps)" "list_all succeeded l"
      and fr: "pending_store s' = pending_store s1" "idb_opens s' = idb_opens s1"
        "employees_store s' = employees_store s1" "isOnline s' = isOnline s1"
        "pendingCount s' = pendingCount s1"
      by blast
    have "Suc n < length (p # ps) \<and>
        remote_log s' = remote_log s @ ((request_of p, resp) # l) @ [(request_of ((p # ps) ! Suc n), Failed msg)] \<and>
        map fst ((request_of p, resp) # l) = map request_of (take (Suc n) (p # ps)) \<and>
        list_all succeeded ((request_of p, resp) # l)"
      using supabase_frame [OF sb] l Rows by (simp add: succeeded_def)
    then have "\<exists>l n msg. n < length (p # ps) \<and>
        remote_log s' = remote_log s @ l @ [(request_of ((p # ps) ! n), Failed msg)] \<and>
        map fst l = map request_of (take n (p # ps)) \<and> list_all succeeded l"
      by blast
    with fr supabase_frame [OF sb] show ?thesis by simp
  qed
qed


lemma mutations_append [simp]: "mutations (a @ b) = mutations a @ mutations b"
  by (simp add: mutations_def)

lemma mutations_requests:
  "map fst l = map request_of ps \<Longrightarrow> mutations l = l"
proof -
  assume a: "map fst l = map request_of ps"
  have "\<forall>x\<in>set l. fst x \<noteq> SelectEmployees"
  proof
    fix x assume "x \<in> set l"
    then have "fst x \<in> set (map request_of ps)" using a by (metis image_eqI set_map)
    then obtain p where "fst x = request_of p" by auto
    then show "fst x \<noteq> SelectEmployees" by (simp add: request_of_mutation)
  qed
  then show ?thesis by (simp add: mutations_def)
qed

lemma saveToCache_frame:
  "pending_store (saveToCache es s) = pending_store s \<and>
   idb_opens (saveToCache es s) = idb_opens s \<and>
   remote_log (saveToCache es s) = remote_log s \<and>
   isOnline (saveToCache es s) = isOnline s \<and>
   pendingCount (saveToCache es s) = pendingCount s"
  by (simp add: saveToCache_def)

lemma fetchEmployees_frame:
  "pending_store (fetchEmployees exec s) = pending_store s \<and>
   idb_opens (fetchEmployees exec s) = idb_opens s \<and>
   isOnline (fetchEmployees exec s) = isOnline s \<and>
   pendingCount (fetchEmployees exec s) = pendingCount s \<and>
   (\<exists>l. remote_log (fetchEmployees exec s) = remote_log s @ l \<and> mutations l = [] \<and>
        (\<not> isOnline s \<longrightarrow> l = []))"
proof (cases "isOnline s")
  case False
  then show ?thesis by (simp add: fetchEmployees_def Let_def mutations_def)
next
  case True
  let ?s2 = "if getFromCache (s\<lparr>loading := True\<rparr>) \<noteq> []
             then s\<lparr>loading := True, employees := getFromCache (s\<lparr>loading := True\<rparr>), loading := False\<rparr>
             else s\<lparr>loading := True\<rparr>"
  obtain resp s1 where sb: "supabase exec SelectEmployees ?s2 = (resp, s1)"
    by (cases "supabase exec SelectEmployees ?s2")
  have s2: "remote_log ?s2 = remote_log s" "pending_store ?s2 = pending_store s"
    "idb_opens ?s2 = idb_opens s" "isOnline ?s2 = isOnline s" "pendingCount ?s2 = pendingCount s"
    by simp_all
  have m: "mutations [(SelectEmployees, resp)] = []" by (simp add: mutations_def)
  show ?thesis
  proof (cases resp)
    case (Failed msg)
    then have "fetchEmployees exec s = s1\<lparr>loading := False\<rparr>"
      using True sb by (simp add: fetchEmployees_def Let_def)
    with supabase_frame [OF sb] s2 m True show ?thesis by simp
  next
    case (Rows d)
    then have "fetchEmployees exec s = (saveToCache d (s1\<lparr>employees := d\<rparr>))\<lparr>loading := False\<rparr>"
      using True sb by (simp add: fetchEmployees_def Let_def)
    with supabase_frame [OF sb] s2 m True saveToCache_frame [of d "s1\<lparr>employees := d\<rparr>"]
    show ?thesis by simp
  qed
qed

lemma sync_cases:
  fixes exec :: "'r exec" and s :: "'r app"
  defines "s' \<equiv> syncPendingOperations exec s"
  defines "pending \<equiv> getPendingOperations s"
  obtains
    (idle) "pending = []" "remote_log s' = remote_log s" "pending_store s' = pending_store s"
      "pendingCount s' = pendingCount s" "idb_opens s' = idb_opens s"
  | (failed) l n msg where "n < length pending"
      "remote_log s' = remote_log s @ l @ [(request_of (pending ! n), Failed msg)]"
      "map fst l = map request_of (take n pending)" "list_all succeeded l"
      "pending_store s' = pending_store s" "pendingCount s' = pendingCount s"
      "idb_opens s' = idb_opens s"
  | (synced) l l2 where "pending \<noteq> []" "remote_log s' = remote_log s @ l @ l2"
      "map fst l = map request_of pending" "list_all succeeded l" "mutations l2 = []"
      "pending_store s' = []" "pendingCount s' = 0" "idb_opens s' = idb_opens s"
proof (cases "pending = []")
  case True
  then have "getPendingOperations (s\<lparr>syncing := True\<rparr>) = []"
    by (auto simp: pending_def getPendingOperations_def split: if_splits)
  then have "s' = s\<lparr>syncing := True, syncing := False\<rparr>"
    unfolding s'_def by (simp add: syncPendingOperations_def Let_def)
  then show ?thesis using idle True by simp
next
  case False
  let ?s1 = "s\<lparr>syncing := True\<rparr>"
  have p1: "getPendingOperations ?s1 = pending"
    by (simp add: pending_def getPendingOperations_def)
  have opens: "idb_opens s"
    using False by (auto simp: pending_def getPendingOperations_def split: if_splits)
  obtain ok s2 where rp: "replay exec pending ?s1 = (ok, s2)"
    by (cases "replay exec pending ?s1")
  show ?thesis
  proof (cases ok)
    case False
    with rp p1 \<open>pending \<noteq> []\<close> have e: "s' = s2"
      unfolding s'_def by (simp add: syncPendingOperations_def Let_def)
    from rp False have "replay exec pending ?s1 = (False, s2)" by simp
    from replay_False [OF this] e show ?thesis using failed by auto
  next
    case True
    with rp p1 \<open>pending \<noteq> []\<close> have e:
      "s' = fetchEmployees exec ((clearPendingOperations s2)\<lparr>pendingCount := 0, syncing := False\<rparr>)"
      unfolding s'_def by (simp add: syncPendingOperations_def Let_def)
    from rp True have "replay exec pending ?s1 = (True, s2)" by simp
    from replay_True [OF this] obtain l where
      l: "remote_log s2 = remote_log s @ l" "map fst l = map request_of pending"
        "list_all succeeded l" and o2: "idb_opens s2" using opens by auto
    let ?s3 = "(clearPendingOperations s2)\<lparr>pendingCount := 0, syncing := False\<rparr>"
    have s3: "remote_log ?s3 = remote_log s @ l" "pending_store ?s3 = []" "pendingCount ?s3 = 0"
      "idb_opens ?s3 = idb_opens s"
      using l o2 opens by (simp_all add: clearPendingOperations_def)
    from fetchEmployees_frame [of exec ?s3] obtain l2 where
      "remote_log s' = remote_log s @ l @ l2" "mutations l2 = []"
      "pending_store s' = []" "pendingCount s' = 0" "idb_opens s' = idb_opens s"
      using e s3 by auto
    with l \<open>pending \<noteq> []\<close> show ?thesis using synced by blast
  qed
qed

lemma sent_since_append [simp]:
  "remote_log s' = remote_log s @ l \<Longrightarrow> sent_since s s' = l"
  by (simp add: sent_since_def)

lemma sync_log:
  fixes exec :: "'r exec" and s :: "'r app"
  defines "s' \<equiv> syncPendingOperations exec s"
  defines "pending \<equiv> getPendingOperations s"
  defines "new \<equiv> mutations (sent_since s s')"
  shows "\<exists>n\<le>length pending.
           map fst new = map request_of (take n pending) \<and>
           (\<forall>i. Suc i < length new \<longrightarrow> succeeded (new ! i)) \<and>
           (list_all succeeded new \<longrightarrow> n = length pending) \<and>
           (pending \<noteq> [] \<longrightarrow> new \<noteq> []) \<and>
           ((\<exists>x\<in>set new. \<not> succeeded x) \<longrightarrow>
              pending_store s' = pending_store s \<and> pendingCount s' = pendingCount s) \<and>
           (pending_store s' = pending_store s \<or>
            pending_store s' = [] \<and> list_all succeeded new \<and> n = length pending) \<and>
           idb_opens s' = idb_opens s"
proof (cases rule: sync_cases [of s exec])
  case idle
  then have "new = []" unfolding new_def s'_def by (simp add: mutations_def)
  with idle show ?thesis unfolding pending_def s'_def by simp
next
  case (failed l n msg)
  let ?f = "(request_of (getPendingOperations s ! n), Failed msg)"
  have ml: "mutations l = l" using failed(3) by (rule mutations_requests)
  have new: "new = l @ [?f]"
    unfolding new_def s'_def using failed(2) ml
    by (simp add: mutations_def request_of_mutation)
  have len: "length l = n" using failed(1,3) by (metis length_map length_take min.absorb2 less_imp_le_nat)
  have a: "map fst new = map request_of (take (Suc n) pending)"
    using new failed(1,3) by (simp add: pending_def take_Suc_conv_app_nth)
  have b: "\<forall>i. Suc i < length new \<longrightarrow> succeeded (new ! i)"
    using new failed(4) by (auto simp: list_all_length nth_append)
  have c: "\<not> list_all succeeded new" using new by (simp add: succeeded_def)
  have "Suc n \<le> length pending" using failed(1) by (simp add: pending_def)
  with a b c new failed(5,6,7) show ?thesis
    unfolding s'_def by (intro exI [of _ "Suc n"]) (simp add: succeeded_def)
next
  case (synced l l2)
  have ml: "mutations l = l" using synced(3) by (rule mutations_requests)
  have new: "new = l" unfolding new_def s'_def using synced(2,5) ml by simp
  have ne: "l \<noteq> []" using synced(1,3) by auto
  have all: "\<forall>x\<in>set l. succeeded x" using synced(4) by (simp add: list_all_iff)
  have nth: "\<forall>i. Suc i < length l \<longrightarrow> succeeded (l ! i)"
    using synced(4) by (simp add: list_all_length)
  from new synced(3,4,6,8) ne all nth show ?thesis
    unfolding s'_def pending_def
    by (intro exI [of _ "length (getPendingOperations s)"]) simp
qed

text \<open>
  Claim C2. The pending-operation queue is cleared only after every queued
  operation has been replayed successfully: when some replayed operation fails
  during a run of \<^verbatim>\<open>syncPendingOperations\<close>, the queue after the run is the queue
  before it; and when the run changes the queue at all, the queue is empty, every
  replay succeeded, and the replays were those of the whole queue.
\<close>

theorem sync_clears_queue_only_after_full_success:
  "((\<exists>x\<in>set (mutations (sent_since s (syncPendingOperations exec s))). \<not> succeeded x) \<longrightarrow>
      pending_store (syncPendingOperations exec s) = pending_store s) \<and>
   (pending_store (syncPendingOperations exec s) \<noteq> pending_store s \<longrightarrow>
      pending_store (syncPendingOperations exec s) = [] \<and>
      list_all succeeded (mutations (sent_since s (syncPendingOperations exec s))) \<and>
      map fst (mutations (sent_since s (syncPendingOperations exec s))) =
        map request_of (getPendingOperations s))"
  using sync_log [of s exec] by auto


theorem sync_clears_queue_only_after_full_success_witness:
  "(Insert (Obj eve), Failed ''An employee cannot be their own manager'')
     \<in> set (mutations (sent_since queued (syncPendingOperations (pg_remote uuid0) queued))) \<and>
   \<not> succeeded (Insert (Obj eve), Failed ''An employee cannot be their own manager'') \<and>
   pending_store (syncPendingOperations (pg_remote uuid0) queued) = pending_store queued \<and>
   pending_store (syncPendingOperations (pg_remote uuid0) queued2) \<noteq> pending_store queued2 \<and>
   pending_store (syncPendingOperations (pg_remote uuid0) queued2) = [] \<and>
   map fst (mutations (sent_since queued2 (syncPendingOperations (pg_remote uuid0) queued2))) =
     [Insert (Obj ann), Insert (Obj bob)]"
proof -
  let ?R = "pg_remote uuid0"
  let ?f = "(Insert (Obj eve), Failed ''An employee cannot be their own manager'')"
  have f: "?f \<in> set (mutations (sent_since queued (syncPendingOperations ?R queued)))"
    by (simp add: run_defs sample_defs)
  have nf: "\<not> succeeded ?f" by (simp add: succeeded_def)
  have c: "pending_store (syncPendingOperations ?R queued2) \<noteq> pending_store queued2"
    by (simp add: run_defs sample_defs)
  have p: "map request_of (getPendingOperations queued2) = [Insert (Obj ann), Insert (Obj bob)]"
    by (simp add: getPendingOperations_def request_of_def queued2_def)
  from sync_clears_queue_only_after_full_success [of queued ?R] f nf
  have 1: "pending_store (syncPendingOperations ?R queued) = pending_store queued" by blast
  from sync_clears_queue_only_after_full_success [of queued2 ?R] c p
  have 2: "pending_store (syncPendingOperations ?R queued2) = [] \<and>
           map fst (mutations (sent_since queued2 (syncPendingOperations ?R queued2))) =
             [Insert (Obj ann), Insert (Obj bob)]"
    by simp
  from f nf c 1 2 show ?thesis by blast
qed

subsection \<open>The pending counter\<close>

text \<open>
  \<^verbatim>\<open>checkPendingOperations\<close>, which runs when the list is mounted, brings the
  counter in step with the queue, and every handler keeps it so.
\<close>

lemma counted_check: "counted (checkPendingOperations s)"
  by (simp add: counted_def checkPendingOperations_def getPendingOperations_def)

lemma counted_fetch: "counted s \<Longrightarrow> counted (fetchEmployees exec s)"
  using fetchEmployees_frame [of exec s] by (simp add: counted_def getPendingOperations_def)

lemma counted_close: "counted (handleDialogClose exec True s)"
  by (simp add: handleDialogClose_def counted_fetch counted_check)

lemma counted_supabase:
  "counted s \<Longrightarrow> supabase exec req s = (resp, s') \<Longrightarrow> counted s'"
  using supabase_frame [of exec req s resp s'] by (simp add: counted_def getPendingOperations_def)

lemma counted_sync: "counted s \<Longrightarrow> counted (syncPendingOperations exec s)"
  by (cases rule: sync_cases [of s exec])
    (auto simp: counted_def getPendingOperations_def split: if_splits)

lemma counted_online: "counted s \<Longrightarrow> counted (handleOnline exec s)"
proof -
  assume c: "counted s"
  then have "counted (s\<lparr>isOnline := True\<rparr>)" by (simp add: counted_def getPendingOperations_def)
  with c show ?thesis
    by (simp add: handleOnline_def reconnect_effect_def counted_sync)
qed

lemma counted_offline: "counted s \<Longrightarrow> counted (handleOffline exec s)"
  by (simp add: handleOffline_def reconnect_effect_def counted_def getPendingOperations_def)

lemma counted_delete: "counted s \<Longrightarrow> counted (handleDelete exec confirmed now k s)"
proof -
  assume c: "counted s"
  show ?thesis
  proof (cases "confirmed \<and> find (\<lambda>e. id' e = k) (employees s) \<noteq> None")
    case False
    with c show ?thesis by (auto simp: handleDelete_def)
  next
    case True
    then obtain emp where fnd: "find (\<lambda>e. id' e = k) (employees s) = Some emp" and cf: confirmed
      by auto
    show ?thesis
    proof (cases "isOnline s")
      case False
      with fnd cf show ?thesis
        by (simp add: handleDelete_def counted_fetch counted_check)
    next
      case on: True
      obtain resp s1 where sb: "supabase exec (DeleteEq k) s = (resp, s1)"
        by (cases "supabase exec (DeleteEq k) s")
      with fnd cf on counted_supabase [OF c sb] show ?thesis
        by (cases resp) (simp_all add: handleDelete_def counted_fetch)
    qed
  qed
qed

lemma counted_submit:
  "counted s \<Longrightarrow> counted (handleSubmit exec parseFloat is_email f prp uuid now s)"
proof -
  assume c: "counted s"
  show ?thesis
  proof (cases "employeeSchema parseFloat is_email f")
    case False
    with c show ?thesis by (simp add: handleSubmit_def)
  next
    case True
    show ?thesis
    proof (cases "isOnline s")
      case False
      with True show ?thesis
        by (cases "prp") (simp_all add: handleSubmit_def Let_def counted_close)
    next
      case on: True
      show ?thesis
      proof (cases "prp")
        case None
        obtain resp s1 where sb:
          "supabase exec (Insert (Fields (dataToSubmit_of parseFloat f))) s = (resp, s1)"
          by (cases "supabase exec (Insert (Fields (dataToSubmit_of parseFloat f))) s")
        with True on None counted_supabase [OF c sb] show ?thesis
          by (cases resp) (simp_all add: handleSubmit_def Let_def counted_close)
      next
        case (Some emp)
        obtain resp s1 where sb:
          "supabase exec (UpdateEq (Fields (dataToSubmit_of parseFloat f)) (id' emp)) s = (resp, s1)"
          by (cases "supabase exec (UpdateEq (Fields (dataToSubmit_of parseFloat f)) (id' emp)) s")
        with True on Some counted_supabase [OF c sb] show ?thesis
          by (cases resp) (simp_all add: handleSubmit_def Let_def counted_close)
      qed
    qed
  qed
qed

text \<open>
  Claim C1. For every state of the pending-operation queue, when connectivity
  returns (the signal turns from offline to online, the pending counter being in
  step with the queue) the sync engine replays the queued operations against
  the remote store one after the other in queue order: the inserts, updates and
  deletes it sends are, in order, those of a prefix of the queue, an insert of the
  queued employee for \<^verbatim>\<open>create\<close>, an update by id for \<^verbatim>\<open>update\<close>, a delete by id
  for \<^verbatim>\<open>delete\<close>; every request but the last one sent has succeeded, so none is
  attempted after a failure; and when none fails the whole queue is replayed.
\<close>

theorem reconnect_replays_queue_in_order:
  assumes off: "\<not> isOnline s"
    and cnt: "pendingCount s = length (getPendingOperations s)"
  shows "prefix (map fst (mutations (sent_since s (handleOnline exec s))))
           (map request_of (getPendingOperations s)) \<and>
         (\<forall>i. Suc i < length (mutations (sent_since s (handleOnline exec s))) \<longrightarrow>
              succeeded (mutations (sent_since s (handleOnline exec s)) ! i)) \<and>
         (list_all succeeded (mutations (sent_since s (handleOnline exec s))) \<longrightarrow>
            map fst (mutations (sent_since s (handleOnline exec s))) =
              map request_of (getPendingOperations s)) \<and>
         (\<forall>p. request_of p =
            (case operation p of
               Create \<Rightarrow> Insert (Obj (employee p))
             | Update \<Rightarrow> UpdateEq (Obj (employee p)) (id' (employee p))
             | Delete \<Rightarrow> DeleteEq (id' (employee p))))"
proof -
  let ?s1 = "s\<lparr>isOnline := True\<rparr>"
  have p1: "getPendingOperations ?s1 = getPendingOperations s"
    by (simp add: getPendingOperations_def)
  have kinds: "\<forall>p. request_of p =
            (case operation p of
               Create \<Rightarrow> Insert (Obj (employee p))
             | Update \<Rightarrow> UpdateEq (Obj (employee p)) (id' (employee p))
             | Delete \<Rightarrow> DeleteEq (id' (employee p)))"
    by (simp add: request_of_def)
  show ?thesis
  proof (cases "getPendingOperations s = []")
    case True
    with off cnt have "handleOnline exec s = ?s1"
      by (simp add: handleOnline_def reconnect_effect_def)
    then have "mutations (sent_since s (handleOnline exec s)) = []"
      by (simp add: sent_since_def mutations_def)
    with True kinds show ?thesis by simp
  next
    case False
    with off cnt have h: "handleOnline exec s = syncPendingOperations exec ?s1"
      by (simp add: handleOnline_def reconnect_effect_def)
    have ss: "sent_since s (handleOnline exec s) = sent_since ?s1 (syncPendingOperations exec ?s1)"
      using h by (simp add: sent_since_def)
    from sync_log [of ?s1 exec] obtain n where
      n: "n \<le> length (getPendingOperations s)"
        "map fst (mutations (sent_since s (handleOnline exec s))) =
           map request_of (take n (getPendingOperations s))"
        "\<forall>i. Suc i < length (mutations (sent_since s (handleOnline exec s))) \<longrightarrow>
              succeeded (mutations (sent_since s (handleOnline exec s)) ! i)"
        "list_all succeeded (mutations (sent_since s (handleOnline exec s))) \<longrightarrow>
           n = length (getPendingOperations s)"
      unfolding ss p1 by blast
    have "prefix (map request_of (take n (getPendingOperations s)))
            (map request_of (getPendingOperations s))"
      by (simp add: map_mono_prefix take_is_prefix)
    with n kinds show ?thesis by simp
  qed
qed


theorem reconnect_replays_queue_in_order_witness:
  "\<not> isOnline queued \<and> pendingCount queued = length (getPendingOperations queued) \<and>
   prefix (map fst (mutations (sent_since queued (handleOnline (pg_remote uuid0) queued))))
     (map request_of (getPendingOperations queued)) \<and>
   Suc 0 < length (mutations (sent_since queued (handleOnline (pg_remote uuid0) queued))) \<and>
   succeeded (mutations (sent_since queued (handleOnline (pg_remote uuid0) queued)) ! 0) \<and>
   \<not> isOnline queued2 \<and> pendingCount queued2 = length (getPendingOperations queued2) \<and>
   list_all succeeded (mutations (sent_since queued2 (handleOnline (pg_remote uuid0) queued2))) \<and>
   map fst (mutations (sent_since queued2 (handleOnline (pg_remote uuid0) queued2))) =
     map request_of (getPendingOperations queued2)"
proof -
  let ?R = "pg_remote uuid0"
  have h1: "\<not> isOnline queued" "pendingCount queued = length (getPendingOperations queued)"
    by (simp_all add: queued_def getPendingOperations_def)
  have h2: "\<not> isOnline queued2" "pendingCount queued2 = length (getPendingOperations queued2)"
    by (simp_all add: queued2_def getPendingOperations_def)
  have len: "Suc 0 < length (mutations (sent_since queued (handleOnline ?R queued)))"
    by (simp add: run_defs sample_defs)
  have ok: "list_all succeeded (mutations (sent_since queued2 (handleOnline ?R queued2)))"
    by (simp add: run_defs sample_defs)
  from reconnect_replays_queue_in_order [OF h1, of ?R] len
  have 1: "prefix (map fst (mutations (sent_since queued (handleOnline ?R queued))))
             (map request_of (getPendingOperations queued)) \<and>
           succeeded (mutations (sent_since queued (handleOnline ?R queued)) ! 0)"
    by blast
  from reconnect_replays_queue_in_order [OF h2, of ?R] ok
  have 2: "map fst (mutations (sent_since queued2 (handleOnline ?R queued2))) =
             map request_of (getPendingOperations queued2)"
    by blast
  from h1 h2 len ok 1 2 show ?thesis by blast
qed

section \<open>Submitting and deleting\<close>




lemma fetchEmployees_pending [simp]:
  "pending_store (fetchEmployees exec s) = pending_store s"
  using fetchEmployees_frame [of exec s] by simp

lemma supabase_pending:
  "supabase exec req s = (resp, s') \<Longrightarrow> pending_store s' = pending_store s"
  using supabase_frame by blast

lemma handleSubmit_appends:
  "prefix (pending_store s)
     (pending_store (handleSubmit exec parseFloat is_email f prop uuid now s))"
proof -
  have c: "\<And>t. pending_store (handleDialogClose exec True t) = pending_store t"
    by (simp add: handleDialogClose_def checkPendingOperations_def)
  show ?thesis
  proof (cases "employeeSchema parseFloat is_email f")
    case False
    then show ?thesis by (simp add: handleSubmit_def)
  next
    case True
    show ?thesis
    proof (cases "isOnline s")
      case False
      with True show ?thesis
        by (cases "prop")
          (simp_all add: handleSubmit_def Let_def c addPendingOperation_def addToLocalDB_def
            updateInLocalDB_def)
    next
      case on: True
      show ?thesis
      proof (cases "prop")
        case None
        obtain resp s1 where sb:
          "supabase exec (Insert (Fields (dataToSubmit_of parseFloat f))) s = (resp, s1)"
          by (cases "supabase exec (Insert (Fields (dataToSubmit_of parseFloat f))) s")
        with True on None supabase_pending [OF sb] show ?thesis
          by (cases resp) (simp_all add: handleSubmit_def Let_def c)
      next
        case (Some emp)
        obtain resp s1 where sb:
          "supabase exec (UpdateEq (Fields (dataToSubmit_of parseFloat f)) (id' emp)) s = (resp, s1)"
          by (cases "supabase exec (UpdateEq (Fields (dataToSubmit_of parseFloat f)) (id' emp)) s")
        with True on Some supabase_pending [OF sb] show ?thesis
          by (cases resp) (simp_all add: handleSubmit_def Let_def c)
      qed
    qed
  qed
qed

lemma handleDelete_appends:
  "prefix (pending_store s) (pending_store (handleDelete exec confirmed now k s))"
proof (cases "confirmed \<and> find (\<lambda>e. id' e = k) (employees s) \<noteq> None")
  case False
  then show ?thesis by (auto simp: handleDelete_def)
next
  case True
  then obtain emp where fnd: "find (\<lambda>e. id' e = k) (employees s) = Some emp" and c: confirmed
    by auto
  show ?thesis
  proof (cases "isOnline s")
    case False
    with fnd c show ?thesis
      by (simp add: handleDelete_def checkPendingOperations_def addPendingOperation_def
          deleteFromLocalDB_def)
  next
    case on: True
    obtain resp s1 where sb: "supabase exec (DeleteEq k) s = (resp, s1)"
      by (cases "supabase exec (DeleteEq k) s")
    with fnd c on supabase_pending [OF sb] show ?thesis
      by (cases resp) (simp_all add: handleDelete_def)
  qed
qed



section \<open>At-least-once replay\<close>

lemma failed_sync_next_run:
  assumes fail: "\<exists>x\<in>set (mutations (sent_since s (syncPendingOperations exec s))). \<not> succeeded x"
  shows "pending_store (syncPendingOperations exec s) = pending_store s \<and>
         mutations (sent_since (syncPendingOperations exec s)
            (syncPendingOperations exec2 (syncPendingOperations exec s))) \<noteq> [] \<and>
         fst (hd (mutations (sent_since (syncPendingOperations exec s)
            (syncPendingOperations exec2 (syncPendingOperations exec s))))) =
           request_of (hd (getPendingOperations s)) \<and>
         prefix (map fst (mutations (sent_since (syncPendingOperations exec s)
                   (syncPendingOperations exec2 (syncPendingOperations exec s)))))
           (map request_of (getPendingOperations s)) \<and>
         (\<forall>i. Suc i < length (mutations (sent_since (syncPendingOperations exec s)
                   (syncPendingOperations exec2 (syncPendingOperations exec s)))) \<longrightarrow>
              succeeded (mutations (sent_since (syncPendingOperations exec s)
                   (syncPendingOperations exec2 (syncPendingOperations exec s))) ! i))"
proof -
  let ?s1 = "syncPendingOperations exec s"
  let ?new2 = "mutations (sent_since ?s1 (syncPendingOperations exec2 ?s1))"
  from sync_log [of s exec] fail obtain n where
    n: "map fst (mutations (sent_since s ?s1)) = map request_of (take n (getPendingOperations s))"
    and keep: "pending_store ?s1 = pending_store s" "idb_opens ?s1 = idb_opens s"
    by blast
  from fail n have ne: "getPendingOperations s \<noteq> []" by auto
  have p1: "getPendingOperations ?s1 = getPendingOperations s"
    using keep by (simp add: getPendingOperations_def)
  from sync_log [of ?s1 exec2] obtain m where
    m: "m \<le> length (getPendingOperations s)"
      "map fst ?new2 = map request_of (take m (getPendingOperations s))"
      "\<forall>i. Suc i < length ?new2 \<longrightarrow> succeeded (?new2 ! i)"
      "?new2 \<noteq> []"
    unfolding p1 using ne by blast
  have "m \<noteq> 0"
  proof
    assume "m = 0"
    with m(2) have "map fst ?new2 = []" by simp
    with m(4) show False by simp
  qed
  then have "hd (map request_of (take m (getPendingOperations s))) =
             request_of (hd (getPendingOperations s))"
    using ne by (cases m; cases "getPendingOperations s") simp_all
  with m(2,4) have hd: "fst (hd ?new2) = request_of (hd (getPendingOperations s))"
    by (metis hd_map)
  have "prefix (map request_of (take m (getPendingOperations s)))
          (map request_of (getPendingOperations s))"
    by (simp add: map_mono_prefix take_is_prefix)
  with m keep hd show ?thesis by simp
qed

text \<open>
  Claim C9 as the spec states it, at a concrete run: the queue holds the creation
  of Ann, of Bob and of Eve (her own manager). The first run inserts Ann and Bob
  and fails at Eve; all three stay queued. The second run sends the insert of Ann
  again, which now collides with the stored row, and ends there: the insert of
  Bob, applied in the first run, is not sent again in the next run.
\<close>

theorem second_run_stops_before_applied_operation:
  "map fst (sent_since queued (syncPendingOperations (pg_remote uuid0) queued)) =
     [Insert (Obj ann), Insert (Obj bob), Insert (Obj eve)] \<and>
   map succeeded (sent_since queued (syncPendingOperations (pg_remote uuid0) queued)) =
     [True, True, False] \<and>
   pending_store (syncPendingOperations (pg_remote uuid0) queued) = pending_store queued \<and>
   sent_since (syncPendingOperations (pg_remote uuid0) queued)
     (syncPendingOperations (pg_remote uuid0) (syncPendingOperations (pg_remote uuid0) queued)) =
     [(Insert (Obj ann),
       Failed ''duplicate key value violates unique constraint employees_pkey'')] \<and>
   Insert (Obj bob) \<notin> fst ` set
     (sent_since (syncPendingOperations (pg_remote uuid0) queued)
        (syncPendingOperations (pg_remote uuid0)
           (syncPendingOperations (pg_remote uuid0) queued)))"
  by (simp add: run_defs sample_defs)

text \<open>
  Claim C9, amended. Replay is at-least-once: a run of the sync engine leaves the
  queue as it was or, after full success, empties it as a whole; so when a run
  fails at some operation, every queued operation (also those already applied to
  the remote store) stays in the queue, and the next run starts again at the head
  of the queue: it sends the first queued operation again, sends the queued
  operations in order, and stops at the first that fails now, so an operation
  applied before is sent again exactly when all operations before it succeed
  again.
\<close>

theorem replay_is_at_least_once:
  "prefix (pending_store s)
     (pending_store (handleSubmit exec parseFloat is_email f prp uuid now s)) \<and>
   prefix (pending_store s) (pending_store (handleDelete exec confirmed now k s)) \<and>
   pending_store (fetchEmployees exec s) = pending_store s \<and>
   (pending_store (syncPendingOperations exec s) = pending_store s \<or>
    pending_store (syncPendingOperations exec s) = [] \<and>
    list_all succeeded (mutations (sent_since s (syncPendingOperations exec s))) \<and>
    map fst (mutations (sent_since s (syncPendingOperations exec s))) =
      map request_of (getPendingOperations s)) \<and>
   ((\<exists>x\<in>set (mutations (sent_since s (syncPendingOperations exec s))). \<not> succeeded x) \<longrightarrow>
      pending_store (syncPendingOperations exec s) = pending_store s \<and>
      mutations (sent_since (syncPendingOperations exec s)
         (syncPendingOperations exec2 (syncPendingOperations exec s))) \<noteq> [] \<and>
      fst (hd (mutations (sent_since (syncPendingOperations exec s)
         (syncPendingOperations exec2 (syncPendingOperations exec s))))) =
        request_of (hd (getPendingOperations s)) \<and>
      prefix (map fst (mutations (sent_since (syncPendingOperations exec s)
                (syncPendingOperations exec2 (syncPendingOperations exec s)))))
        (map request_of (getPendingOperations s)) \<and>
      (\<forall>i. Suc i < length (mutations (sent_since (syncPendingOperations exec s)
                (syncPendingOperations exec2 (syncPendingOperations exec s)))) \<longrightarrow>
           succeeded (mutations (sent_since (syncPendingOperations exec s)
                (syncPendingOperations exec2 (syncPendingOperations exec s))) ! i)))"
proof -
  have a: "pending_store (syncPendingOperations exec s) = pending_store s \<or>
    pending_store (syncPendingOperations exec s) = [] \<and>
    list_all succeeded (mutations (sent_since s (syncPendingOperations exec s))) \<and>
    map fst (mutations (sent_since s (syncPendingOperations exec s))) =
      map request_of (getPendingOperations s)"
    using sync_log [of s exec] by auto
  show ?thesis
    using a handleSubmit_appends [of s exec parseFloat is_email f prp uuid now]
      handleDelete_appends [of s exec confirmed now k]
      failed_sync_next_run [of s exec exec2]
    by (simp del: hd_map)
qed

theorem replay_is_at_least_once_witness:
  "(Insert (Obj eve), Failed ''An employee cannot be their own manager'')
     \<in> set (mutations (sent_since queued (syncPendingOperations (pg_remote uuid0) queued))) \<and>
   \<not> succeeded (Insert (Obj eve), Failed ''An employee cannot be their own manager'') \<and>
   pending_store (syncPendingOperations (pg_remote uuid0) queued) = pending_store queued \<and>
   fst (hd (mutations (sent_since (syncPendingOperations (pg_remote uuid0) queued)
      (syncPendingOperations (pg_remote uuid0)
         (syncPendingOperations (pg_remote uuid0) queued))))) = Insert (Obj ann)"
proof -
  let ?R = "pg_remote uuid0"
  let ?f = "(Insert (Obj eve), Failed ''An employee cannot be their own manager'')"
  have f: "?f \<in> set (mutations (sent_since queued (syncPendingOperations ?R queued)))"
    by (simp add: run_defs sample_defs)
  have nf: "\<not> succeeded ?f" by (simp add: succeeded_def)
  have p: "request_of (hd (getPendingOperations queued)) = Insert (Obj ann)"
    by (simp add: getPendingOperations_def request_of_def queued_def)
  from f nf have ex: "\<exists>x\<in>set (mutations (sent_since queued (syncPendingOperations ?R queued))).
      \<not> succeeded x" by blast
  from replay_is_at_least_once [where s = queued and exec = ?R and ?exec2.0 = ?R] ex
  have "pending_store (syncPendingOperations ?R queued) = pending_store queued \<and>
        fst (hd (mutations (sent_since (syncPendingOperations ?R queued)
          (syncPendingOperations ?R (syncPendingOperations ?R queued))))) =
        request_of (hd (getPendingOperations queued))"
    by blast
  with p f nf show ?thesis by simp
qed

section \<open>The records of the queue\<close>

lemma handleDelete_record:
  "set (pending_store (handleDelete exec confirmed now k s)) \<subseteq>
     set (pending_store s) \<union>
     {r. operation r = Delete \<and> timestamp r = now \<and> id' (employee r) = k \<and>
         employee r \<in> set (employees s)}"
proof (cases "confirmed \<and> find (\<lambda>e. id' e = k) (employees s) \<noteq> None")
  case False
  then show ?thesis by (auto simp: handleDelete_def)
next
  case True
  then obtain emp where fnd: "find (\<lambda>e. id' e = k) (employees s) = Some emp" and c: confirmed
    by auto
  from fnd have emp: "emp \<in> set (employees s)" "id' emp = k"
    by (auto simp: find_Some_iff)
  show ?thesis
  proof (cases "isOnline s")
    case False
    with fnd c emp show ?thesis
      by (auto simp: handleDelete_def checkPendingOperations_def addPendingOperation_def
          deleteFromLocalDB_def)
  next
    case on: True
    obtain resp s1 where sb: "supabase exec (DeleteEq k) s = (resp, s1)"
      by (cases "supabase exec (DeleteEq k) s")
    with fnd c on supabase_pending [OF sb] show ?thesis
      by (cases resp) (simp_all add: handleDelete_def)
  qed
qed

lemma handleSubmit_record:
  "set (pending_store (handleSubmit exec parseFloat is_email f prp uuid now s)) \<subseteq>
     set (pending_store s) \<union>
     {r. timestamp r = now \<and>
         (case prp of
            None \<Rightarrow> operation r = Create \<and>
                    employee r = newEmployee (dataToSubmit_of parseFloat f) uuid
          | Some emp \<Rightarrow> operation r = Update \<and>
                    employee r = updatedEmployee emp (dataToSubmit_of parseFloat f))}"
proof -
  have c: "\<And>t. pending_store (handleDialogClose exec True t) = pending_store t"
    by (simp add: handleDialogClose_def checkPendingOperations_def)
  show ?thesis
  proof (cases "employeeSchema parseFloat is_email f")
    case False
    then show ?thesis by (simp add: handleSubmit_def)
  next
    case True
    show ?thesis
    proof (cases "isOnline s")
      case False
      with True show ?thesis
        by (cases "prp")
          (auto simp: handleSubmit_def Let_def c addPendingOperation_def addToLocalDB_def
            updateInLocalDB_def)
    next
      case on: True
      show ?thesis
      proof (cases "prp")
        case None
        obtain resp s1 where sb:
          "supabase exec (Insert (Fields (dataToSubmit_of parseFloat f))) s = (resp, s1)"
          by (cases "supabase exec (Insert (Fields (dataToSubmit_of parseFloat f))) s")
        with True on None supabase_pending [OF sb] show ?thesis
          by (cases resp) (simp_all add: handleSubmit_def Let_def c)
      next
        case (Some emp)
        obtain resp s1 where sb:
          "supabase exec (UpdateEq (Fields (dataToSubmit_of parseFloat f)) (id' emp)) s = (resp, s1)"
          by (cases "supabase exec (UpdateEq (Fields (dataToSubmit_of parseFloat f)) (id' emp)) s")
        with True on Some supabase_pending [OF sb] show ?thesis
          by (cases resp) (simp_all add: handleSubmit_def Let_def c)
      qed
    qed
  qed
qed

text \<open>
  Claim C4. Every record stored in the pending-operation queue is an
  \<^verbatim>\<open>{operation, employee, timestamp}\<close> record: \<^verbatim>\<open>addPendingOperation\<close> adds, at the end of
  the queue, one record whose operation is the given one of \<^verbatim>\<open>create\<close>,
  \<^verbatim>\<open>update\<close> and \<^verbatim>\<open>delete\<close>, whose payload is the given employee record and whose
  time stamp is the time of the call (when the local database does not open,
  nothing is stored); and every record that the two submitting handlers leave
  in the queue was there before or carries the handler's operation, the employee
  it affects (the employee created, the employee as updated, the listed employee
  deleted) and the handler's time.
\<close>

theorem pending_record_shape:
  "(idb_opens s \<longrightarrow>
      (\<exists>r. pending_store (addPendingOperation opn e now s) = pending_store s @ [r] \<and>
           getPendingOperations (addPendingOperation opn e now s) =
             getPendingOperations s @ [r] \<and>
           operation r = opn \<and> operation r \<in> {Create, Update, Delete} \<and>
           employee r = e \<and> timestamp r = now)) \<and>
   (\<not> idb_opens s \<longrightarrow> pending_store (addPendingOperation opn e now s) = pending_store s) \<and>
   set (pending_store (handleSubmit exec parseFloat is_email f prp uuid now s)) \<subseteq>
     set (pending_store s) \<union>
     {r. timestamp r = now \<and>
         (case prp of
            None \<Rightarrow> operation r = Create \<and>
                    employee r = newEmployee (dataToSubmit_of parseFloat f) uuid
          | Some emp \<Rightarrow> operation r = Update \<and>
                    employee r = updatedEmployee emp (dataToSubmit_of parseFloat f))} \<and>
   set (pending_store (handleDelete exec confirmed now k s)) \<subseteq>
     set (pending_store s) \<union>
     {r. operation r = Delete \<and> timestamp r = now \<and> id' (employee r) = k \<and>
         employee r \<in> set (employees s)}"
proof -
  have a: "(idb_opens s \<longrightarrow>
      (\<exists>r. pending_store (addPendingOperation opn e now s) = pending_store s @ [r] \<and>
           getPendingOperations (addPendingOperation opn e now s) =
             getPendingOperations s @ [r] \<and>
           operation r = opn \<and> operation r \<in> {Create, Update, Delete} \<and>
           employee r = e \<and> timestamp r = now)) \<and>
   (\<not> idb_opens s \<longrightarrow> pending_store (addPendingOperation opn e now s) = pending_store s)"
    by (cases opn) (simp_all add: addPendingOperation_def getPendingOperations_def)
  from a handleSubmit_record [of exec parseFloat is_email f prp uuid now s]
    handleDelete_record [of exec confirmed now k s]
  show ?thesis by blast
qed

theorem pending_record_shape_witness:
  "idb_opens queued2 \<and>
   (\<exists>r. pending_store (addPendingOperation Delete bob 7 queued2) = pending_store queued2 @ [r] \<and>
        operation r = Delete \<and> employee r = bob \<and> timestamp r = 7) \<and>
   \<not> idb_opens (queued2\<lparr>idb_opens := False\<rparr>) \<and>
   pending_store (addPendingOperation Delete bob 7 (queued2\<lparr>idb_opens := False\<rparr>)) =
     pending_store (queued2\<lparr>idb_opens := False\<rparr>)"
proof -
  have h: "idb_opens queued2" by (simp add: queued2_def)
  have n: "\<not> idb_opens (queued2\<lparr>idb_opens := False\<rparr>)" by simp
  from pending_record_shape [where s = queued2 and opn = Delete and e = bob and now = 7] h
  have 1: "\<exists>r. pending_store (addPendingOperation Delete bob 7 queued2) =
                pending_store queued2 @ [r] \<and>
              operation r = Delete \<and> employee r = bob \<and> timestamp r = 7"
    by blast
  from pending_record_shape
    [where s = "queued2\<lparr>idb_opens := False\<rparr>" and opn = Delete and e = bob and now = 7] n
  have 2: "pending_store (addPendingOperation Delete bob 7 (queued2\<lparr>idb_opens := False\<rparr>)) =
     pending_store (queued2\<lparr>idb_opens := False\<rparr>)"
    by blast
  from h n 1 2 show ?thesis by blast
qed

section \<open>The triggers and constraints of the table\<close>

lemmas pg_defs =
  pg_exec_def pg_insert_def pg_update_def pg_delete_def before_insert_def before_update_def
  check_manager_not_self_def update_updated_at_def constraint_error_def fk_manager_ok_def
  set_null_def

lemmas row_defs =
  ann_row_def bob_row_def eve_row_def dan_row_def table1_def raise_salary_def
  make_own_manager_def

text \<open>
  Claim C3. For every insert or update of an employee row whose new
  \<^verbatim>\<open>manager_id\<close> equals its own \<^verbatim>\<open>id\<close>, the trigger raises the exception
  \<^verbatim>\<open>An employee cannot be their own manager\<close> and the row is not written (the
  statement fails and the table stays as it was); for every row whose
  \<^verbatim>\<open>manager_id\<close> differs from its \<^verbatim>\<open>id\<close> or is null, the trigger passes the row
  through unchanged.
\<close>

theorem self_manager_is_rejected:
  "(manager_id NEW = Some (id' NEW) \<longrightarrow>
      check_manager_not_self NEW =
        Inl (RaiseException ''An employee cannot be their own manager'') \<and>
      pg_exec now (INSERT NEW) db =
        Inl (RaiseException ''An employee cannot be their own manager'') \<and>
      pg_run [(now, INSERT NEW)] db = db \<and>
      (find (\<lambda>x. id' x = k) (employees_table db) = Some OLD \<and> f OLD = NEW \<longrightarrow>
         pg_exec now (UPDATE k f) db =
           Inl (RaiseException ''An employee cannot be their own manager'') \<and>
         pg_run [(now, UPDATE k f)] db = db)) \<and>
   (manager_id NEW \<noteq> Some (id' NEW) \<longrightarrow> check_manager_not_self NEW = Inr NEW)"
  by (simp add: check_manager_not_self_def pg_exec_def pg_insert_def pg_update_def
      before_insert_def before_update_def)

theorem self_manager_is_rejected_witness:
  "manager_id eve_row = Some (id' eve_row) \<and>
   pg_exec 9 (INSERT eve_row) table1 =
     Inl (RaiseException ''An employee cannot be their own manager'') \<and>
   find (\<lambda>x. id' x = ''b2'') (employees_table table1) = Some bob_row \<and>
   manager_id (make_own_manager bob_row) = Some (id' (make_own_manager bob_row)) \<and>
   pg_exec 9 (UPDATE ''b2'' make_own_manager) table1 =
     Inl (RaiseException ''An employee cannot be their own manager'') \<and>
   pg_run [(9, UPDATE ''b2'' make_own_manager)] table1 = table1 \<and>
   manager_id bob_row \<noteq> Some (id' bob_row) \<and> check_manager_not_self bob_row = Inr bob_row \<and>
   manager_id ann_row \<noteq> Some (id' ann_row) \<and> check_manager_not_self ann_row = Inr ann_row"
proof -
  have h1: "manager_id eve_row = Some (id' eve_row)" by (simp add: eve_row_def)
  have h2: "find (\<lambda>x. id' x = ''b2'') (employees_table table1) = Some bob_row"
    by (simp add: row_defs)
  have h3: "manager_id (make_own_manager bob_row) = Some (id' (make_own_manager bob_row))"
    by (simp add: make_own_manager_def)
  have h4: "manager_id bob_row \<noteq> Some (id' bob_row)" "manager_id ann_row \<noteq> Some (id' ann_row)"
    by (simp_all add: row_defs)
  from self_manager_is_rejected [of eve_row 9 table1] h1
  have 1: "pg_exec 9 (INSERT eve_row) table1 =
     Inl (RaiseException ''An employee cannot be their own manager'')" by blast
  from self_manager_is_rejected
    [where NEW = "make_own_manager bob_row" and k = "''b2''" and db = table1 and OLD = bob_row
      and f = make_own_manager and now = 9] h2 h3
  have 2: "pg_exec 9 (UPDATE ''b2'' make_own_manager) table1 =
     Inl (RaiseException ''An employee cannot be their own manager'') \<and>
     pg_run [(9, UPDATE ''b2'' make_own_manager)] table1 = table1" by blast
  from self_manager_is_rejected [of bob_row] h4
  have 3: "check_manager_not_self bob_row = Inr bob_row" by blast
  from self_manager_is_rejected [of ann_row] h4
  have 4: "check_manager_not_self ann_row = Inr ann_row" by blast
  from h1 h2 h3 h4 1 2 3 4 show ?thesis by blast
qed

text \<open>
  Claim C7. For every update of an employee row, the trigger function
  \<^verbatim>\<open>update_updated_at\<close> sets \<^verbatim>\<open>updated_at\<close> to the current time and changes no
  other field: every other field of the row it returns, and of the row the
  update then stores, is the field supplied by the update.
\<close>

theorem updated_at_is_touched_and_nothing_else:
  "(\<exists>r. update_updated_at now NEW = Inr r \<and> updated_at r = Some now \<and>
        id' r = id' NEW \<and> employee_number r = employee_number NEW \<and>
        first_name r = first_name NEW \<and> last_name r = last_name NEW \<and>
        email r = email NEW \<and> birth_date r = birth_date NEW \<and> salary r = salary NEW \<and>
        role r = role NEW \<and> manager_id r = manager_id NEW \<and>
        created_at r = created_at NEW \<and> created_by r = created_by NEW) \<and>
   (find (\<lambda>x. id' x = k) (employees_table db) = Some OLD \<and>
    pg_exec now (UPDATE k f) db = Inr db' \<longrightarrow>
      employees_table db' =
        map (\<lambda>x. if id' x = k then (f OLD)\<lparr>updated_at := Some now\<rparr> else x)
          (employees_table db))"
  by (auto simp: update_updated_at_def pg_exec_def pg_update_def before_update_def
      check_manager_not_self_def split: if_splits option.splits)

theorem updated_at_is_touched_and_nothing_else_witness:
  "find (\<lambda>x. id' x = ''b2'') (employees_table table1) = Some bob_row \<and>
   pg_exec 9 (UPDATE ''b2'' raise_salary) table1 =
     Inr (table1\<lparr>employees_table := [ann_row, bob_row\<lparr>salary := 3500, updated_at := Some 9\<rparr>]\<rparr>) \<and>
   employees_table (table1\<lparr>employees_table :=
       [ann_row, bob_row\<lparr>salary := 3500, updated_at := Some 9\<rparr>]\<rparr>) =
     map (\<lambda>x. if id' x = ''b2'' then (raise_salary bob_row)\<lparr>updated_at := Some 9\<rparr> else x)
       (employees_table table1)"
proof -
  have h: "find (\<lambda>x. id' x = ''b2'') (employees_table table1) = Some bob_row"
    by (simp add: row_defs)
  have e: "pg_exec 9 (UPDATE ''b2'' raise_salary) table1 =
     Inr (table1\<lparr>employees_table := [ann_row, bob_row\<lparr>salary := 3500, updated_at := Some 9\<rparr>]\<rparr>)"
    by (simp add: pg_defs row_defs)
  from updated_at_is_touched_and_nothing_else
    [where k = "''b2''" and db = table1 and OLD = bob_row and f = raise_salary and now = 9
      and db' = "table1\<lparr>employees_table :=
        [ann_row, bob_row\<lparr>salary := 3500, updated_at := Some 9\<rparr>]\<rparr>"] h e
  show ?thesis by blast
qed

subsection \<open>Unique employee numbers\<close>

lemma set_null_keys:
  "id' (set_null now k x) = id' x" "employee_number (set_null now k x) = employee_number x"
  by (simp_all add: set_null_def before_update_def check_manager_not_self_def
      update_updated_at_def)

lemma find_split:
  "find (\<lambda>x. id' x = k) t = Some OLD \<Longrightarrow> distinct (map id' t) \<Longrightarrow>
     \<exists>xs ys. t = xs @ OLD # ys \<and> id' OLD = k \<and> (\<forall>x\<in>set (xs @ ys). id' x \<noteq> k)"
proof -
  assume f: "find (\<lambda>x. id' x = k) t = Some OLD" and d: "distinct (map id' t)"
  from f have m: "OLD \<in> set t" "id' OLD = k"
    by (auto simp: find_Some_iff)
  then obtain xs ys where t: "t = xs @ OLD # ys" by (meson split_list)
  with d m have "\<forall>x\<in>set (xs @ ys). id' x \<noteq> k" by (auto simp: image_iff)
  with t m show ?thesis by blast
qed

lemma pg_insert_inv:
  "pg_inv db \<Longrightarrow> pg_insert now NEW db = Inr db' \<Longrightarrow> pg_inv db'"
  by (auto simp: pg_inv_def pg_insert_def before_insert_def check_manager_not_self_def
      constraint_error_def split: if_splits sum.splits option.splits)

lemma pg_update_inv:
  assumes inv: "pg_inv db" and up: "pg_update now k f db = Inr db'"
  shows "pg_inv db'"
proof (cases "find (\<lambda>x. id' x = k) (employees_table db)")
  case None
  with up inv show ?thesis by (simp add: pg_update_def)
next
  case (Some OLD)
  from find_split [OF Some] inv obtain xs ys where
    t: "employees_table db = xs @ OLD # ys" "id' OLD = k" "\<forall>x\<in>set (xs @ ys). id' x \<noteq> k"
    by (auto simp: pg_inv_def)
  have fl: "filter (\<lambda>x. id' x \<noteq> k) (employees_table db) = xs @ ys"
    using t by (simp add: filter_id_conv)
  from up Some obtain r where
    r: "before_update now (f OLD) = Inr r"
      "constraint_error db (xs @ ys) r = None"
      "db' = db\<lparr>employees_table := map (\<lambda>x. if id' x = k then r else x) (employees_table db)\<rparr>"
    by (auto simp: pg_update_def fl split: sum.splits option.splits)
  have mp: "map (\<lambda>x. if id' x = k then r else x) (employees_table db) = xs @ r # ys"
    using t by (simp add: map_idI)
  from r(2) have fresh: "id' r \<notin> set (map id' (xs @ ys))"
    "employee_number r \<notin> set (map employee_number (xs @ ys))"
    by (auto simp: constraint_error_def split: if_splits)
  from inv t have "distinct (map id' (xs @ ys))" "distinct (map employee_number (xs @ ys))"
    by (auto simp: pg_inv_def)
  with fresh show ?thesis
    unfolding pg_inv_def r(3) by (auto simp: mp)
qed

lemma pg_delete_inv:
  "pg_inv db \<Longrightarrow> pg_delete now k db = Inr db' \<Longrightarrow> pg_inv db'"
proof -
  assume inv: "pg_inv db" and d: "pg_delete now k db = Inr db'"
  have a: "map id' (map (set_null now k) ys) = map id' ys"
    "map employee_number (map (set_null now k) ys) = map employee_number ys" for ys
    by (simp_all add: set_null_keys)
  from d have db': "employees_table db' =
      map (set_null now k) (filter (\<lambda>x. id' x \<noteq> k) (employees_table db))"
    by (auto simp: pg_delete_def)
  from inv show ?thesis
    unfolding pg_inv_def db' a by (simp add: distinct_map_filter)
qed

lemma pg_exec_inv: "pg_inv db \<Longrightarrow> pg_exec now st db = Inr db' \<Longrightarrow> pg_inv db'"
  by (cases st) (auto simp: pg_exec_def intro: pg_insert_inv pg_update_inv pg_delete_inv)

lemma pg_run_inv: "pg_inv db \<Longrightarrow> pg_inv (pg_run stmts db)"
proof (induction stmts arbitrary: db)
  case Nil
  then show ?case by simp
next
  case (Cons a stmts)
  obtain now st where a: "a = (now, st)" by (cases a)
  show ?case
  proof (cases "pg_exec now st db")
    case (Inl e)
    with a Cons show ?thesis by simp
  next
    case (Inr db')
    with Cons.prems have "pg_inv db'" by (rule pg_exec_inv)
    with a Inr Cons.IH show ?thesis by simp
  qed
qed

text \<open>
  Claim C6 as the spec states it, at a concrete insert: the table holds Ann with
  number E001 and a row for Dan with the same number arrives. Both trigger
  functions hand the row on; it is the unique constraint of the column that
  refuses it.
\<close>

theorem duplicate_number_passes_the_triggers:
  "employee_number dan_row \<in> set (map employee_number (employees_table table1)) \<and>
   before_insert 9 dan_row = Inr dan_row \<and>
   before_update 9 dan_row = Inr (dan_row\<lparr>updated_at := Some 9\<rparr>) \<and>
   pg_exec 9 (INSERT dan_row) table1 = Inl (UniqueViolation ''employees_employee_number_key'')"
  by (simp add: pg_defs row_defs)

text \<open>
  Claim C6, amended. No two employee rows ever share the same
  \<^verbatim>\<open>employee_number\<close>: the table reached from the empty one by any history of
  inserts, updates and deletes has pairwise distinct numbers. The uniqueness is
  enforced by the \<^verbatim>\<open>UNIQUE\<close> constraint of the column, not by a trigger: an
  insert of a row with a stored number that passes the one insert trigger is
  refused by a declared constraint.
\<close>

theorem employee_numbers_unique_by_constraint:
  "distinct (map employee_number
     (employees_table (pg_run stmts \<lparr>employees_table = [], auth_users = us\<rparr>))) \<and>
   (employee_number NEW \<in> set (map employee_number (employees_table db)) \<longrightarrow>
      before_insert now NEW = Inl (RaiseException ''An employee cannot be their own manager'') \<or>
      before_insert now NEW = Inr NEW \<and> (\<exists>c. pg_exec now (INSERT NEW) db = Inl c \<and>
        c \<in> {CheckViolation ''employees_salary_check'', UniqueViolation ''employees_pkey'',
              UniqueViolation ''employees_employee_number_key''}))"
proof -
  have "pg_inv \<lparr>employees_table = [], auth_users = us\<rparr>" by (simp add: pg_inv_def)
  then have "pg_inv (pg_run stmts \<lparr>employees_table = [], auth_users = us\<rparr>)"
    by (rule pg_run_inv)
  then show ?thesis
    by (auto simp: pg_inv_def pg_exec_def pg_insert_def before_insert_def
        check_manager_not_self_def constraint_error_def)
qed

theorem employee_numbers_unique_by_constraint_witness:
  "distinct (map employee_number
     (employees_table
        (pg_run [(1, INSERT ann_row), (2, INSERT bob_row), (9, INSERT dan_row)]
           \<lparr>employees_table = [], auth_users = []\<rparr>))) \<and>
   employee_number dan_row \<in> set (map employee_number (employees_table table1)) \<and>
   before_insert 9 dan_row = Inr dan_row \<and>
   (\<exists>c. pg_exec 9 (INSERT dan_row) table1 = Inl c)"
proof -
  have h: "employee_number dan_row \<in> set (map employee_number (employees_table table1))"
    by (simp add: row_defs)
  have t: "before_insert 9 dan_row \<noteq>
             Inl (RaiseException ''An employee cannot be their own manager'')"
    by (simp add: pg_defs row_defs)
  from employee_numbers_unique_by_constraint
    [of "[(1, INSERT ann_row), (2, INSERT bob_row), (9, INSERT dan_row)]" "[]" dan_row table1 9]
    h t
  show ?thesis by blast
qed

section \<open>Gravatar addresses and normalised e-mails\<close>















section \<open>The hierarchy is the forest of the list\<close>

lemma set_node_fold:
  "distinct (map id' es) \<Longrightarrow>
     (\<forall>e\<in>set es. fold set_node es m (id' e) = Some (e, [])) \<and>
     (\<forall>x. x \<notin> set (map id' es) \<longrightarrow> fold set_node es m x = m x)"
proof (induction es arbitrary: m)
  case Nil
  then show ?case by simp
next
  case (Cons a es)
  then have d: "distinct (map id' es)" and a: "id' a \<notin> set (map id' es)" by simp_all
  from Cons.IH [OF d, of "set_node a m"] a
  show ?case by (auto simp: set_node_def)
qed

lemma place_fold:
  assumes dom: "\<forall>x. m x \<noteq> None \<longleftrightarrow> x \<in> set (map id' es)"
    and sub: "set xs \<subseteq> set es"
  shows "fold place xs (m, r) =
     ((\<lambda>x. case m x of
              None \<Rightarrow> None
            | Some (e, s) \<Rightarrow>
                Some (e, s @ map id' (filter (\<lambda>c. manager_id c = Some x \<and> x \<noteq> []) xs))),
      r @ map id' (filter (\<lambda>e. \<not> has_manager es e) xs))"
  using assms
proof (induction xs arbitrary: m r)
  case Nil
  have "m = (\<lambda>x. case m x of None \<Rightarrow> None | Some (e, s) \<Rightarrow>
      Some (e, s @ map id' (filter (\<lambda>c. manager_id c = Some x \<and> x \<noteq> []) [])))"
    by (rule ext) (simp split: option.splits)
  then show ?case by simp
next
  case (Cons a xs)
  from Cons.prems have ain: "a \<in> set es" and xs: "set xs \<subseteq> set es" by simp_all
  from Cons.prems(1) ain obtain node where ma: "m (id' a) = Some node" by fastforce
  show ?case
  proof (cases "has_manager es a")
    case False
    have mnone: "\<not> (manager_id a = Some x \<and> x \<noteq> []) \<or> m x = None" for x
    proof (cases "manager_id a = Some x \<and> x \<noteq> []")
      case True
      with False have "x \<notin> set (map id' es)" by (simp add: has_manager_def)
      with Cons.prems(1) have "m x = None" by blast
      then show ?thesis ..
    qed simp
    have "place a (m, r) = (m, r @ [id' a])"
    proof (cases "manager_id a")
      case None
      with ma show ?thesis by (simp add: place_def)
    next
      case (Some x)
      with mnone [of x] ma show ?thesis by (auto simp: place_def)
    qed
    moreover have "(\<lambda>x. case m x of None \<Rightarrow> None | Some (e, s) \<Rightarrow>
          Some (e, s @ map id' (filter (\<lambda>c. manager_id c = Some x \<and> x \<noteq> []) (a # xs)))) =
        (\<lambda>x. case m x of None \<Rightarrow> None | Some (e, s) \<Rightarrow>
          Some (e, s @ map id' (filter (\<lambda>c. manager_id c = Some x \<and> x \<noteq> []) xs)))"
    proof (rule ext)
      fix x
      show "(case m x of None \<Rightarrow> None | Some (e, s) \<Rightarrow>
          Some (e, s @ map id' (filter (\<lambda>c. manager_id c = Some x \<and> x \<noteq> []) (a # xs)))) =
        (case m x of None \<Rightarrow> None | Some (e, s) \<Rightarrow>
          Some (e, s @ map id' (filter (\<lambda>c. manager_id c = Some x \<and> x \<noteq> []) xs)))"
      proof (cases "m x")
        case None
        then show ?thesis by simp
      next
        case (Some node)
        with mnone [of x] have "\<not> (manager_id a = Some x \<and> x \<noteq> [])" by simp
        then have "filter (\<lambda>c. manager_id c = Some x \<and> x \<noteq> []) (a # xs) =
                   filter (\<lambda>c. manager_id c = Some x \<and> x \<noteq> []) xs"
          by auto
        then show ?thesis by (simp only:)
      qed
    qed
    ultimately show ?thesis
      using Cons.IH [OF Cons.prems(1) xs, of "r @ [id' a]"] False by simp
  next
    case True
    then obtain mid where mid: "manager_id a = Some mid" "mid \<noteq> []" "mid \<in> set (map id' es)"
      by (auto simp: has_manager_def split: option.splits)
    with Cons.prems(1) obtain me subs where mm: "m mid = Some (me, subs)" by fastforce
    let ?m' = "m(mid \<mapsto> (me, subs @ [id' a]))"
    have pl: "place a (m, r) = (?m', r)"
      using ma mid mm by (simp add: place_def)
    have dom': "\<forall>x. ?m' x \<noteq> None \<longleftrightarrow> x \<in> set (map id' es)"
      using Cons.prems(1) mid by auto
    have eq: "(\<lambda>x. case ?m' x of None \<Rightarrow> None | Some (e, s) \<Rightarrow>
          Some (e, s @ map id' (filter (\<lambda>c. manager_id c = Some x \<and> x \<noteq> []) xs))) =
        (\<lambda>x. case m x of None \<Rightarrow> None | Some (e, s) \<Rightarrow>
          Some (e, s @ map id' (filter (\<lambda>c. manager_id c = Some x \<and> x \<noteq> []) (a # xs))))"
      using mid mm by (intro ext) (auto split: option.splits)
    have step: "fold place (a # xs) (m, r) = fold place xs (?m', r)"
      by (simp add: pl)
    have roots: "filter (\<lambda>e. \<not> has_manager es e) (a # xs) =
                 filter (\<lambda>e. \<not> has_manager es e) xs"
      using True by simp
    show ?thesis
      unfolding step Cons.IH [OF dom' xs] eq roots by (rule refl)
  qed
qed

lemma link_eq:
  assumes d: "distinct (map id' es)"
  shows "fst (link es) (id' e) = (if e \<in> set es then Some (e, map id' (kids es e)) else
           fst (link es) (id' e))"
    and "snd (link es) = map id' (filter (\<lambda>e. \<not> has_manager es e) es)"
proof -
  let ?m0 = "fold set_node es Map.empty"
  from set_node_fold [OF d, of Map.empty]
  have m0: "\<forall>e\<in>set es. ?m0 (id' e) = Some (e, [])"
    "\<forall>x. x \<notin> set (map id' es) \<longrightarrow> ?m0 x = None" by auto
  then have dom: "\<forall>x. ?m0 x \<noteq> None \<longleftrightarrow> x \<in> set (map id' es)" by auto
  note pf = place_fold [OF dom subset_refl, of "[]"]
  show "snd (link es) = map id' (filter (\<lambda>e. \<not> has_manager es e) es)"
    by (simp add: link_def pf)
  show "fst (link es) (id' e) = (if e \<in> set es then Some (e, map id' (kids es e)) else
           fst (link es) (id' e))"
    using m0(1) by (auto simp: link_def pf kids_def)
qed

lemma those_map_Some:
  "those (map f xs) = Some ys \<longleftrightarrow> (\<forall>x\<in>set xs. f x \<noteq> None) \<and> ys = map (\<lambda>x. the (f x)) xs"
  by (induction xs arbitrary: ys) (auto split: option.splits)

lemma those_map_None: "those (map f xs) = None \<longleftrightarrow> (\<exists>x\<in>set xs. f x = None)"
  by (induction xs) (auto split: option.splits)

lemma find_by_id:
  "distinct (map id' es) \<Longrightarrow> p \<in> set es \<Longrightarrow> find (\<lambda>x. id' x = id' p) es = Some p"
  by (induction es) (auto simp: image_iff)

lemma mgr_Some:
  "mgr es e = Some p \<Longrightarrow> p \<in> set es \<and> manager_id e = Some (id' p) \<and> id' p \<noteq> []"
  by (auto simp: mgr_def find_Some_iff split: option.splits if_splits)

lemma kids_iff:
  assumes d: "distinct (map id' es)" and p: "p \<in> set es"
  shows "c \<in> set (kids es p) \<longleftrightarrow> c \<in> set es \<and> mgr es c = Some p"
proof
  assume "c \<in> set (kids es p)"
  then have c: "c \<in> set es" "manager_id c = Some (id' p)" "id' p \<noteq> []"
    by (simp_all add: kids_def)
  then have "mgr es c = find (\<lambda>x. id' x = id' p) es" by (simp add: mgr_def)
  with find_by_id [OF d p] c(1) show "c \<in> set es \<and> mgr es c = Some p" by simp
next
  assume a: "c \<in> set es \<and> mgr es c = Some p"
  with mgr_Some [of es c p] show "c \<in> set (kids es p)" by (simp add: kids_def)
qed

lemma has_manager_iff: "has_manager es e \<longleftrightarrow> mgr es e \<noteq> None"
proof (cases "manager_id e")
  case None
  then show ?thesis by (simp add: has_manager_def mgr_def)
next
  case (Some m)
  have "m \<in> set (map id' es) \<longleftrightarrow> find (\<lambda>x. id' x = m) es \<noteq> None"
    by (auto simp: find_None_iff)
  with Some show ?thesis by (simp add: has_manager_def mgr_def)
qed

lemma tree_of_sub:
  assumes d: "distinct (map id' es)"
  shows "e \<in> set es \<Longrightarrow> tree_of (fst (link es)) n (id' e) = sub es n e"
proof (induction n arbitrary: e)
  case 0
  then show ?case by simp
next
  case (Suc n)
  from link_eq(1) [OF d, of e] Suc.prems
  have m: "fst (link es) (id' e) = Some (e, map id' (kids es e))" by simp
  have "\<And>c. c \<in> set (kids es e) \<Longrightarrow> tree_of (fst (link es)) n (id' c) = sub es n c"
    using Suc.IH by (simp add: kids_def)
  then have eq: "map (\<lambda>c. tree_of (fst (link es)) n (id' c)) (kids es e) =
             map (sub es n) (kids es e)"
    by (intro map_cong) simp_all
  have "tree_of (fst (link es)) (Suc n) (id' e) =
        map_option (Node e) (those (map (\<lambda>c. tree_of (fst (link es)) n (id' c)) (kids es e)))"
    by (simp add: m comp_def)
  also have "\<dots> = map_option (Node e) (those (map (sub es n) (kids es e)))"
    by (simp only: eq)
  finally show ?case by simp
qed

lemma forest_of_sub:
  assumes d: "distinct (map id' es)"
  shows "forest_of (link es) n = those (map (sub es n) (filter (\<lambda>e. \<not> has_manager es e) es))"
proof -
  have eq: "map (\<lambda>c. tree_of (fst (link es)) n (id' c)) (filter (\<lambda>e. \<not> has_manager es e) es) =
        map (sub es n) (filter (\<lambda>e. \<not> has_manager es e) es)"
    using tree_of_sub [OF d] by (intro map_cong) simp_all
  have "forest_of (link es) n =
        those (map (\<lambda>c. tree_of (fst (link es)) n (id' c)) (filter (\<lambda>e. \<not> has_manager es e) es))"
    by (simp add: forest_of_def link_eq(2) [OF d] comp_def)
  then show ?thesis by (simp only: eq)
qed

lemma anc_in: "e \<in> set es \<Longrightarrow> anc es k e = Some y \<Longrightarrow> y \<in> set es"
  by (induction k arbitrary: y) (auto dest: mgr_Some split: option.splits)

lemma anc_add:
  "anc es (i + j) e = (case anc es j e of None \<Rightarrow> None | Some y \<Rightarrow> anc es i y)"
  by (induction i) (auto split: option.splits)

lemma anc_Suc_left:
  "anc es (Suc k) e = (case mgr es e of None \<Rightarrow> None | Some p \<Rightarrow> anc es k p)"
  using anc_add [of es k 1 e] by simp

lemma anc_le: "anc es n e = Some r \<Longrightarrow> m \<le> n \<Longrightarrow> anc es m e \<noteq> None"
proof -
  assume a: "anc es n e = Some r" and le: "m \<le> n"
  then have "anc es ((n - m) + m) e = Some r" by simp
  then show ?thesis unfolding anc_add by (auto split: option.splits)
qed

text \<open>A chain of ancestors that ends in a root is shorter than the list.\<close>

lemma chain_to_root_short:
  assumes e: "e \<in> set es" and a: "anc es n e = Some r" and r: "mgr es r = None"
  shows "n < length es"
proof -
  let ?f = "\<lambda>i. the (anc es i e)"
  have some: "\<And>i. i \<le> n \<Longrightarrow> anc es i e = Some (?f i)"
    using anc_le [OF a] by fastforce
  have inj: "inj_on ?f {..n}"
  proof (rule inj_onI)
    fix i j assume i: "i \<in> {..n}" and j: "j \<in> {..n}" and eq: "?f i = ?f j"
    { fix i j :: nat assume ij: "i < j" "j \<le> n" and eq: "?f i = ?f j"
      from some [of i] some [of j] ij eq have same: "anc es i e = anc es j e" by simp
      have "anc es (n - j + i) e = anc es (n - j + j) e"
        unfolding anc_add same ..
      with a ij have k: "anc es (n - j + i) e = Some r" by simp
      have "anc es (Suc (n - j + i)) e = None" using k r by simp
      moreover have "Suc (n - j + i) \<le> n" using ij by simp
      ultimately have False using anc_le [OF a] by blast }
    note strict = this
    show "i = j"
    proof (rule ccontr)
      assume "i \<noteq> j"
      then consider "i < j" | "j < i" by linarith
      then show False using strict [of i j] strict [of j i] i j eq by cases simp_all
    qed
  qed
  have "?f ` {..n} \<subseteq> set es"
    using some anc_in [OF e] by auto
  then have "card (?f ` {..n}) \<le> card (set es)" by (simp add: card_mono)
  with inj have "Suc n \<le> card (set es)" by (simp add: card_image)
  also have "\<dots> \<le> length es" by (rule card_length)
  finally show ?thesis by simp
qed

lemma sub_None_chain:
  assumes d: "distinct (map id' es)"
  shows "p \<in> set es \<Longrightarrow> sub es n p = None \<Longrightarrow> \<exists>y\<in>set es. anc es n y = Some p"
proof (induction n arbitrary: p)
  case 0
  then show ?case by auto
next
  case (Suc n)
  from Suc.prems(2) obtain c where c: "c \<in> set (kids es p)" "sub es n c = None"
    by (auto simp: those_map_None)
  from c(1) kids_iff [OF d Suc.prems(1)] have cin: "c \<in> set es" and m: "mgr es c = Some p"
    by auto
  from Suc.IH [OF cin c(2)] obtain y where y: "y \<in> set es" "anc es n y = Some c" by blast
  with m have "anc es (Suc n) y = Some p" by simp
  with y show ?case by blast
qed

lemma root_total:
  assumes d: "distinct (map id' es)" and r: "r \<in> set es" "mgr es r = None"
  shows "sub es (length es) r \<noteq> None"
proof
  assume "sub es (length es) r = None"
  from sub_None_chain [OF d r(1) this] obtain y where "y \<in> set es" "anc es (length es) y = Some r"
    by blast
  from chain_to_root_short [OF this r(2)] show False by simp
qed

lemma mgr_rel: "e \<in> set es \<Longrightarrow> mgr es e = Some p \<Longrightarrow> (id' e, id' p) \<in> manager_rel es"
proof -
  assume e: "e \<in> set es" and m: "mgr es e = Some p"
  from mgr_Some [OF m] have "manager_id e = Some (id' p)" "id' p \<in> set (map id' es)" by auto
  with e show ?thesis by (force simp: manager_rel_def)
qed

lemma anc_trancl:
  "e \<in> set es \<Longrightarrow> anc es (Suc k) e = Some y \<Longrightarrow> (id' e, id' y) \<in> (manager_rel es)\<^sup>+"
proof (induction k arbitrary: y)
  case 0
  then show ?case by (auto dest: mgr_rel)
next
  case (Suc k)
  from Suc.prems(2) obtain z where z: "anc es (Suc k) e = Some z" "mgr es z = Some y"
    by (auto split: option.splits)
  from anc_in [OF Suc.prems(1) z(1)] z(2) have "(id' z, id' y) \<in> manager_rel es"
    by (rule mgr_rel)
  with Suc.IH [OF Suc.prems(1) z(1)] show ?case by (rule trancl_into_trancl)
qed

lemma no_cycle:
  "acyclic (manager_rel es) \<Longrightarrow> e \<in> set es \<Longrightarrow> anc es (Suc k) e \<noteq> Some e"
  using anc_trancl [of e es k e] by (auto simp: acyclic_def)

lemma root_ancestor:
  assumes ac: "acyclic (manager_rel es)"
  shows "e \<in> set es \<Longrightarrow> \<exists>k r. anc es k e = Some r \<and> mgr es r = None"
proof -
  have "finite (manager_rel es)" unfolding manager_rel_def by (rule finite_set)
  with ac have wf: "wf ((manager_rel es)\<inverse>)" by (simp add: finite_acyclic_wf_converse)
  have "\<forall>e\<in>set es. id' e = x \<longrightarrow> (\<exists>k r. anc es k e = Some r \<and> mgr es r = None)" for x
  proof (induction x rule: wf_induct_rule [OF wf])
    case (1 x)
    show ?case
    proof (intro ballI impI)
      fix e assume e: "e \<in> set es" "id' e = x"
      show "\<exists>k r. anc es k e = Some r \<and> mgr es r = None"
      proof (cases "mgr es e")
        case None
        then have "anc es 0 e = Some e \<and> mgr es e = None" by simp
        then show ?thesis by blast
      next
        case (Some p)
        from mgr_rel [OF e(1) Some] e(2) have "(id' p, x) \<in> (manager_rel es)\<inverse>" by simp
        moreover from mgr_Some [OF Some] have "p \<in> set es" by simp
        ultimately obtain k r where "anc es k p = Some r" "mgr es r = None"
          using "1.IH" by blast
        with Some have "anc es (Suc k) e = Some r \<and> mgr es r = None"
          unfolding anc_Suc_left by simp
        then show ?thesis by blast
      qed
    qed
  qed
  then show "e \<in> set es \<Longrightarrow> \<exists>k r. anc es k e = Some r \<and> mgr es r = None" by blast
qed

lemma sub_root: "sub es n p = Some t \<Longrightarrow> root_of t = p"
  by (cases n) auto

lemma sub_nodes:
  assumes d: "distinct (map id' es)"
  shows "p \<in> set es \<Longrightarrow> sub es n p = Some t \<Longrightarrow>
           set (nodes t) = {y \<in> set es. \<exists>k<n. anc es k y = Some p}"
proof (induction n arbitrary: p t)
  case 0
  then show ?case by simp
next
  case (Suc n)
  from Suc.prems(2) obtain ts where t: "t = Node p ts"
    and ts: "those (map (sub es n) (kids es p)) = Some ts" by auto
  from ts have all: "\<forall>c\<in>set (kids es p). sub es n c \<noteq> None"
    and tsm: "ts = map (\<lambda>c. the (sub es n c)) (kids es p)"
    by (simp_all add: those_map_Some)
  have kid: "c \<in> set (kids es p) \<longleftrightarrow> c \<in> set es \<and> mgr es c = Some p" for c
    by (rule kids_iff [OF d Suc.prems(1)])
  have ih: "set (nodes (the (sub es n c))) = {y \<in> set es. \<exists>k<n. anc es k y = Some c}"
    if "c \<in> set (kids es p)" for c
  proof -
    from that all obtain tc where "sub es n c = Some tc" by auto
    with Suc.IH [of c tc] that kid [of c] show ?thesis by simp
  qed
  have nodes: "set (nodes t) = insert p (\<Union>c\<in>set (kids es p). set (nodes (the (sub es n c))))"
    by (simp add: t tsm)
  show ?case
  proof (intro set_eqI iffI)
    fix y assume "y \<in> set (nodes t)"
    then consider "y = p" | c where "c \<in> set (kids es p)" "y \<in> set (nodes (the (sub es n c)))"
      unfolding nodes by auto
    then show "y \<in> {y \<in> set es. \<exists>k<Suc n. anc es k y = Some p}"
    proof cases
      case 1
      with Suc.prems(1) have "y \<in> set es \<and> 0 < Suc n \<and> anc es 0 y = Some p" by simp
      then show ?thesis by blast
    next
      case 2
      with ih [of c] obtain k where k: "y \<in> set es" "k < n" "anc es k y = Some c" by auto
      from 2(1) kid [of c] have "mgr es c = Some p" by simp
      with k have "Suc k < Suc n \<and> anc es (Suc k) y = Some p" by simp
      with k(1) show ?thesis by blast
    qed
  next
    fix y assume "y \<in> {y \<in> set es. \<exists>k<Suc n. anc es k y = Some p}"
    then obtain k where y: "y \<in> set es" and k: "k < Suc n" "anc es k y = Some p" by auto
    show "y \<in> set (nodes t)"
    proof (cases k)
      case 0
      with k show ?thesis by (simp add: nodes)
    next
      case (Suc k')
      with k(2) obtain c where c: "anc es k' y = Some c" "mgr es c = Some p"
        by (auto split: option.splits)
      from anc_in [OF y c(1)] c(2) kid [of c] have ck: "c \<in> set (kids es p)" by simp
      from Suc k(1) c(1) y have "y \<in> {y \<in> set es. \<exists>k<n. anc es k y = Some c}" by auto
      with ih [OF ck] ck show ?thesis unfolding nodes by blast
    qed
  qed
qed

lemma distinct_concat_map:
  "distinct xs \<Longrightarrow> (\<And>x. x \<in> set xs \<Longrightarrow> distinct (f x)) \<Longrightarrow>
   (\<And>x y. x \<in> set xs \<Longrightarrow> y \<in> set xs \<Longrightarrow> x \<noteq> y \<Longrightarrow> set (f x) \<inter> set (f y) = {}) \<Longrightarrow>
   distinct (concat (map f xs))"
proof (induction xs)
  case Nil
  then show ?case by simp
next
  case (Cons a xs)
  have "distinct (concat (map f xs))"
    using Cons.prems by (intro Cons.IH) auto
  moreover have "distinct (f a)" using Cons.prems(2) by simp
  moreover have "set (f a) \<inter> set (f y) = {}" if "y \<in> set xs" for y
    using Cons.prems(1) Cons.prems(3) [of a y] that by auto
  ultimately show ?case by auto
qed

lemma count_list_distinct:
  "distinct xs \<Longrightarrow> x \<in> set xs \<Longrightarrow> count_list xs x = 1"
  by (induction xs) (auto simp: count_list_0_iff)

lemma anc_between:
  assumes a: "anc es k y = Some c" and b: "anc es k' y = Some c'" and le: "k \<le> k'"
  shows "anc es (k' - k) c = Some c'"
proof -
  from le have "anc es ((k' - k) + k) y = Some c'" using b by simp
  then show ?thesis unfolding anc_add a by simp
qed

lemma sub_distinct:
  assumes d: "distinct (map id' es)" and ac: "acyclic (manager_rel es)"
  shows "p \<in> set es \<Longrightarrow> sub es n p = Some t \<Longrightarrow> distinct (nodes t)"
proof (induction n arbitrary: p t)
  case 0
  then show ?case by simp
next
  case (Suc n)
  let ?f = "\<lambda>c. nodes (the (sub es n c))"
  from Suc.prems(2) obtain ts where t: "t = Node p ts"
    and ts: "those (map (sub es n) (kids es p)) = Some ts" by auto
  from ts have all: "\<forall>c\<in>set (kids es p). sub es n c \<noteq> None"
    and tsm: "ts = map (\<lambda>c. the (sub es n c)) (kids es p)"
    by (simp_all add: those_map_Some)
  have kid: "c \<in> set (kids es p) \<longleftrightarrow> c \<in> set es \<and> mgr es c = Some p" for c
    by (rule kids_iff [OF d Suc.prems(1)])
  have some: "sub es n c = Some (the (sub es n c))" if "c \<in> set (kids es p)" for c
    using that all by auto
  have inside: "\<exists>k. anc es k y = Some c" if "c \<in> set (kids es p)" "y \<in> set (?f c)" for c y
    using sub_nodes [OF d _ some [OF that(1)]] that kid [of c] by auto
  have nt: "nodes t = p # concat (map ?f (kids es p))"
    by (simp add: t tsm comp_def)
  have "distinct es" using d by (simp add: distinct_map)
  then have dk: "distinct (kids es p)" by (simp add: kids_def)
  have each: "distinct (?f c)" if "c \<in> set (kids es p)" for c
    using Suc.IH [OF _ some [OF that]] that kid [of c] by simp
  have cross: "False"
    if c: "c \<in> set (kids es p)" "c' \<in> set (kids es p)"
      and k: "anc es k y = Some c" "anc es k' y = Some c'" "k < k'" for c c' y k k'
  proof -
    from k have "anc es (k' - k) c = Some c'" by (intro anc_between) simp_all
    moreover from k(3) obtain j where j: "k' - k = Suc j" by (metis Suc_diff_Suc)
    moreover from c kid have m: "mgr es c = Some p" "mgr es c' = Some p" by simp_all
    ultimately have "anc es j p = Some c'" by (simp add: anc_Suc_left del: anc.simps)
    with m(2) have "anc es (Suc j) p = Some p" by simp
    with no_cycle [OF ac Suc.prems(1)] show False by blast
  qed
  have disj: "set (?f c) \<inter> set (?f c') = {}"
    if c: "c \<in> set (kids es p)" "c' \<in> set (kids es p)" "c \<noteq> c'" for c c'
  proof (rule ccontr)
    assume "set (?f c) \<inter> set (?f c') \<noteq> {}"
    then obtain y where y: "y \<in> set (?f c)" "y \<in> set (?f c')" by auto
    from inside [OF c(1) y(1)] inside [OF c(2) y(2)] obtain k k' where
      k: "anc es k y = Some c" "anc es k' y = Some c'" by blast
    consider "k < k'" | "k' < k" | "k = k'" by linarith
    then show False
    proof cases
      case 1
      with cross [OF c(1,2) k] show False by simp
    next
      case 2
      with cross [OF c(2,1) k(2,1)] show False by simp
    next
      case 3
      with k c(3) show False by simp
    qed
  qed
  have dc: "distinct (concat (map ?f (kids es p)))"
    using dk each disj by (rule distinct_concat_map)
  have "p \<notin> set (concat (map ?f (kids es p)))"
  proof
    assume "p \<in> set (concat (map ?f (kids es p)))"
    then obtain c where c: "c \<in> set (kids es p)" "p \<in> set (?f c)" by auto
    from inside [OF c] obtain k where "anc es k p = Some c" by blast
    moreover from c(1) kid have "mgr es c = Some p" by simp
    ultimately have "anc es (Suc k) p = Some p" by simp
    with no_cycle [OF ac Suc.prems(1)] show False by blast
  qed
  with dc show ?case by (simp add: nt)
qed

lemma nodes_subtrees: "e \<in> set (nodes t) \<Longrightarrow> \<exists>ts. Node e ts \<in> set (subtrees t)"
proof (induction t)
  case (Node x ts)
  show ?case
  proof (cases "e = x")
    case True
    then show ?thesis by auto
  next
    case False
    with Node.prems obtain s where s: "s \<in> set ts" "e \<in> set (nodes s)" by auto
    from Node.IH [OF s] s(1) show ?thesis by auto
  qed
qed

lemma sub_subtrees:
  assumes d: "distinct (map id' es)"
  shows "p \<in> set es \<Longrightarrow> sub es n p = Some t \<Longrightarrow> Node q ss \<in> set (subtrees t) \<Longrightarrow>
           q \<in> set es \<and> map root_of ss = kids es q"
proof (induction n arbitrary: p t)
  case 0
  then show ?case by simp
next
  case (Suc n)
  from Suc.prems(2) obtain ts where t: "t = Node p ts"
    and ts: "those (map (sub es n) (kids es p)) = Some ts" by auto
  from ts have all: "\<forall>c\<in>set (kids es p). sub es n c \<noteq> None"
    and tsm: "ts = map (\<lambda>c. the (sub es n c)) (kids es p)"
    by (simp_all add: those_map_Some)
  have some: "sub es n c = Some (the (sub es n c))" if "c \<in> set (kids es p)" for c
    using that all by auto
  from Suc.prems(3) t consider "Node q ss = Node p ts"
    | s where "s \<in> set ts" "Node q ss \<in> set (subtrees s)" by auto
  then show ?case
  proof cases
    case 1
    have "map root_of ts = map (\<lambda>c. root_of (the (sub es n c))) (kids es p)"
      by (simp add: tsm comp_def)
    also have "\<dots> = map (\<lambda>c. c) (kids es p)"
      using some by (intro map_cong) (auto dest: sub_root)
    finally show ?thesis using 1 Suc.prems(1) by simp
  next
    case 2
    from 2(1) tsm obtain c where c: "c \<in> set (kids es p)" "s = the (sub es n c)" by auto
    from c(1) have "c \<in> set es" by (simp add: kids_def)
    from Suc.IH [OF this some [OF c(1)]] 2(2) c(2) show ?thesis by simp
  qed
qed

lemma forest_nodes:
  assumes d: "distinct (map id' es)" and ac: "acyclic (manager_rel es)"
  shows "\<exists>forest. forest_of (link es) (length es) = Some forest \<and>
           forest = map (\<lambda>r. the (sub es (length es) r)) (filter (\<lambda>e. \<not> has_manager es e) es) \<and>
           (\<forall>r\<in>set (filter (\<lambda>e. \<not> has_manager es e) es).
              sub es (length es) r = Some (the (sub es (length es) r))) \<and>
           distinct (concat (map nodes forest)) \<and>
           set (concat (map nodes forest)) = set es"
proof -
  let ?N = "length es"
  let ?rs = "filter (\<lambda>e. \<not> has_manager es e) es"
  let ?f = "\<lambda>r. nodes (the (sub es ?N r))"
  let ?forest = "map (\<lambda>r. the (sub es ?N r)) ?rs"
  have rt: "r \<in> set es \<and> mgr es r = None" if "r \<in> set ?rs" for r
    using that by (simp add: has_manager_iff)
  have some: "sub es ?N r = Some (the (sub es ?N r))" if "r \<in> set ?rs" for r
    using root_total [OF d] rt [OF that] by auto
  have fo: "forest_of (link es) ?N = Some ?forest"
    unfolding forest_of_sub [OF d] those_map_Some using some by auto
  have nd: "set (?f r) = {y \<in> set es. \<exists>k<?N. anc es k y = Some r}" if "r \<in> set ?rs" for r
    using sub_nodes [OF d _ some [OF that]] rt [OF that] by simp
  have "distinct es" using d by (simp add: distinct_map)
  then have drs: "distinct ?rs" by simp
  have each: "distinct (?f r)" if "r \<in> set ?rs" for r
    using sub_distinct [OF d ac _ some [OF that]] rt [OF that] by simp
  have cross: False
    if r: "r \<in> set ?rs" "r' \<in> set ?rs" and k: "anc es k y = Some r" "anc es k' y = Some r'" "k < k'"
    for r r' y k k'
  proof -
    from k have "anc es (k' - k) r = Some r'" by (intro anc_between) simp_all
    moreover from k(3) obtain j where "k' - k = Suc j" by (metis Suc_diff_Suc)
    moreover from rt [OF r(1)] have "mgr es r = None" by simp
    ultimately show False by (simp add: anc_Suc_left del: anc.simps)
  qed
  have disj: "set (?f r) \<inter> set (?f r') = {}"
    if r: "r \<in> set ?rs" "r' \<in> set ?rs" "r \<noteq> r'" for r r'
  proof (rule ccontr)
    assume "set (?f r) \<inter> set (?f r') \<noteq> {}"
    then obtain y where "y \<in> set (?f r)" "y \<in> set (?f r')" by auto
    with nd [OF r(1)] nd [OF r(2)] obtain k k' where
      k: "anc es k y = Some r" "anc es k' y = Some r'" by auto
    consider "k < k'" | "k' < k" | "k = k'" by linarith
    then show False
    proof cases
      case 1
      with cross [OF r(1,2) k] show False by simp
    next
      case 2
      with cross [OF r(2,1) k(2,1)] show False by simp
    next
      case 3
      with k r(3) show False by simp
    qed
  qed
  have cm: "concat (map nodes ?forest) = concat (map ?f ?rs)"
    by (simp add: comp_def)
  have dist: "distinct (concat (map nodes ?forest))"
    unfolding cm using drs each disj by (rule distinct_concat_map)
  have "set (concat (map nodes ?forest)) = set es"
  proof (intro set_eqI iffI)
    fix y assume "y \<in> set (concat (map nodes ?forest))"
    then obtain r where "r \<in> set ?rs" "y \<in> set (?f r)" unfolding cm by auto
    with nd [of r] show "y \<in> set es" by simp
  next
    fix y assume y: "y \<in> set es"
    from root_ancestor [OF ac y] obtain k r where k: "anc es k y = Some r" "mgr es r = None"
      by blast
    from anc_in [OF y k(1)] k(2) have r: "r \<in> set ?rs" by (simp add: has_manager_iff)
    from chain_to_root_short [OF y k] have "k < ?N" .
    with nd [OF r] y k(1) have "y \<in> set (?f r)" by auto
    with r show "y \<in> set (concat (map nodes ?forest))" unfolding cm by auto
  qed
  with fo dist some show ?thesis by blast
qed

lemmas tree_defs =
  buildHierarchyTree_def forest_of_def link_def place_def set_node_def filterHierarchy_def
  matches_def includes_str_def toLowerCase_def lower_char_def

lemma sublist_ann:
  "sublist ''ann'' ''ann''" "\<not> sublist ''ann'' ''lee''" "\<not> sublist ''ann'' ''e001''"
  "\<not> sublist ''ann'' ''ceo''" "\<not> sublist ''ann'' ''bob''" "\<not> sublist ''ann'' ''ray''"
  "\<not> sublist ''ann'' ''e002''" "\<not> sublist ''ann'' ''clerk''"
  by (simp_all add: sublist_Cons_right prefix_Cons)

text \<open>
  Claim C8 as the spec states it, with the search box holding \<^verbatim>\<open>ann\<close>: the list
  of Ann and Bob (who reports to Ann) is acyclic, and the tree that
  \<^verbatim>\<open>buildHierarchyTree\<close> sets is Ann alone; Bob appears nowhere.
\<close>

theorem search_term_drops_employees:
  "distinct (map id' [ann, bob]) \<and> acyclic (manager_rel [ann, bob]) \<and>
   buildHierarchyTree [ann, bob] ''ann'' [] = Some [Node ann []] \<and>
   count_list (concat (map nodes [Node ann []])) bob = 0"
proof -
  have "manager_rel [ann, bob] \<subseteq> measure rank"
    by (simp add: manager_rel_def rank_def ann_def bob_def)
  then have "acyclic (manager_rel [ann, bob])"
    by (rule acyclic_subset [OF wf_acyclic [OF wf_measure]])
  then show ?thesis
    by (simp add: tree_defs sublist_ann ann_def bob_def)
qed

text \<open>
  Claim C8, amended. For every finite employee list (with pairwise distinct,
  non-empty ids, as rows of the table have them) in which the \<^verbatim>\<open>manager_id\<close>
  relation, restricted to the ids present in the list, is acyclic,
  \<^verbatim>\<open>buildHierarchyTree\<close> with an empty search term produces a forest in which
  every employee of the list appears exactly once (and, the list not being empty,
  nobody else), an employee is a root if and only if its \<^verbatim>\<open>manager_id\<close> is null
  or matches no id in the list, and every other employee appears among the
  subordinates of the employee whose id equals its \<^verbatim>\<open>manager_id\<close>.
\<close>

theorem hierarchy_is_the_forest_of_the_list:
  assumes d: "distinct (map id' es)" and n: "[] \<notin> set (map id' es)"
    and ac: "acyclic (manager_rel es)"
  shows "\<exists>forest. buildHierarchyTree es [] hierarchyTree = Some forest \<and>
           (\<forall>e\<in>set es. count_list (concat (map nodes forest)) e = 1) \<and>
           (es \<noteq> [] \<longrightarrow> set (concat (map nodes forest)) = set es) \<and>
           (\<forall>e\<in>set es. (\<exists>ts. Node e ts \<in> set forest) \<longleftrightarrow>
              (manager_id e = None \<or>
               (\<exists>m. manager_id e = Some m \<and> m \<notin> set (map id' es)))) \<and>
           (\<forall>e\<in>set es. \<forall>m. manager_id e = Some m \<and> m \<in> set (map id' es) \<longrightarrow>
              (\<exists>me subs ts. Node me subs \<in> set (concat (map subtrees forest)) \<and>
                 id' me = m \<and> Node e ts \<in> set subs))"
proof (cases "es = []")
  case True
  then show ?thesis by (simp add: buildHierarchyTree_def)
next
  case False
  let ?N = "length es"
  let ?rs = "filter (\<lambda>e. \<not> has_manager es e) es"
  from forest_nodes [OF d ac] obtain forest where
    fo: "forest_of (link es) ?N = Some forest"
    and fm: "forest = map (\<lambda>r. the (sub es ?N r)) ?rs"
    and some: "\<forall>r\<in>set ?rs. sub es ?N r = Some (the (sub es ?N r))"
    and dist: "distinct (concat (map nodes forest))"
    and all: "set (concat (map nodes forest)) = set es"
    by blast
  have b: "buildHierarchyTree es [] hierarchyTree = Some forest"
    using False fo by (simp add: buildHierarchyTree_def)
  have once: "\<forall>e\<in>set es. count_list (concat (map nodes forest)) e = 1"
    using dist all by (simp add: count_list_distinct)
  have hm: "has_manager es e \<longleftrightarrow> \<not> (manager_id e = None \<or>
               (\<exists>m. manager_id e = Some m \<and> m \<notin> set (map id' es)))" for e
    using n by (auto simp: has_manager_def image_iff split: option.splits)
  have rootnode: "(\<exists>ts. Node e ts \<in> set forest) \<longleftrightarrow> e \<in> set ?rs" for e
  proof
    assume "\<exists>ts. Node e ts \<in> set forest"
    then obtain ts r where r: "r \<in> set ?rs" "Node e ts = the (sub es ?N r)"
      unfolding fm by auto
    from r(2) have "root_of (the (sub es ?N r)) = e" by (metis root_of.simps)
    moreover from r(1) some have "sub es ?N r = Some (the (sub es ?N r))" by blast
    then have "root_of (the (sub es ?N r)) = r" by (rule sub_root)
    ultimately have "e = r" by simp
    with r show "e \<in> set ?rs" by simp
  next
    assume e: "e \<in> set ?rs"
    with some have s: "sub es ?N e = Some (the (sub es ?N e))" by blast
    from sub_root [OF s] obtain ts where "the (sub es ?N e) = Node e ts"
      by (cases "the (sub es ?N e)") auto
    with e show "\<exists>ts. Node e ts \<in> set forest" unfolding fm by force
  qed
  have roots: "\<forall>e\<in>set es. (\<exists>ts. Node e ts \<in> set forest) \<longleftrightarrow>
              (manager_id e = None \<or>
               (\<exists>m. manager_id e = Some m \<and> m \<notin> set (map id' es)))"
    unfolding rootnode using hm by auto
  have under: "\<exists>me subs ts. Node me subs \<in> set (concat (map subtrees forest)) \<and>
                 id' me = m \<and> Node e ts \<in> set subs"
    if e: "e \<in> set es" and m: "manager_id e = Some m" "m \<in> set (map id' es)" for e m
  proof -
    from m(2) n have "m \<noteq> []" by blast
    from m(2) obtain pm where pm: "pm \<in> set es" "id' pm = m" by auto
    with find_by_id [OF d pm(1)] m(1) \<open>m \<noteq> []\<close> have mg: "mgr es e = Some pm"
      by (simp add: mgr_def)
    with kids_iff [OF d pm(1)] e have ek: "e \<in> set (kids es pm)" by simp
    from pm(1) all obtain t where t: "t \<in> set forest" "pm \<in> set (nodes t)" by auto
    from nodes_subtrees [OF t(2)] obtain subs where subs: "Node pm subs \<in> set (subtrees t)"
      by blast
    from t(1) obtain r where r: "r \<in> set ?rs" "t = the (sub es ?N r)" unfolding fm by auto
    with some have "sub es ?N r = Some t" "r \<in> set es" by auto
    from sub_subtrees [OF d this(2,1) subs] have "map root_of subs = kids es pm" by simp
    with ek have "e \<in> root_of ` set subs" by (metis set_map)
    then obtain s where s: "s \<in> set subs" "root_of s = e" by auto
    from s(2) obtain ts where "s = Node e ts" by (cases s) auto
    with s(1) subs t(1) pm(2) show ?thesis by auto
  qed
  from b once all roots under show ?thesis by blast
qed

theorem hierarchy_is_the_forest_of_the_list_witness:
  "distinct (map id' [carl, ann, bob]) \<and> [] \<notin> set (map id' [carl, ann, bob]) \<and>
   acyclic (manager_rel [carl, ann, bob]) \<and>
   buildHierarchyTree [carl, ann, bob] [] [] = Some [Node ann [Node bob [Node carl []]]] \<and>
   count_list (concat (map nodes [Node ann [Node bob [Node carl []]]])) carl = 1 \<and>
   (\<exists>ts. Node ann ts \<in> set [Node ann [Node bob [Node carl []]]]) \<and>
   (\<exists>me subs ts. Node me subs \<in> set (concat (map subtrees [Node ann [Node bob [Node carl []]]])) \<and>
      id' me = ''b2'' \<and> Node carl ts \<in> set subs)"
proof -
  let ?es = "[carl, ann, bob]"
  have d: "distinct (map id' ?es)" and n: "[] \<notin> set (map id' ?es)"
    by (simp_all add: carl_def ann_def bob_def)
  have "manager_rel ?es \<subseteq> measure rank"
    by (simp add: manager_rel_def rank_def carl_def ann_def bob_def)
  then have ac: "acyclic (manager_rel ?es)"
    by (rule acyclic_subset [OF wf_acyclic [OF wf_measure]])
  have b: "buildHierarchyTree ?es [] [] = Some [Node ann [Node bob [Node carl []]]]"
    by (simp add: tree_defs carl_def ann_def bob_def)
  have m: "carl \<in> set ?es" "manager_id carl = Some ''b2''" "''b2'' \<in> set (map id' ?es)"
    "ann \<in> set ?es" "manager_id ann = None"
    by (simp_all add: carl_def ann_def bob_def)
  from hierarchy_is_the_forest_of_the_list [OF d n ac, of "[]"] obtain forest where
    f: "buildHierarchyTree ?es [] [] = Some forest"
    and once: "\<forall>e\<in>set ?es. count_list (concat (map nodes forest)) e = 1"
    and roots: "\<forall>e\<in>set ?es. (\<exists>ts. Node e ts \<in> set forest) \<longleftrightarrow>
              (manager_id e = None \<or>
               (\<exists>m. manager_id e = Some m \<and> m \<notin> set (map id' ?es)))"
    and under: "\<forall>e\<in>set ?es. \<forall>m. manager_id e = Some m \<and> m \<in> set (map id' ?es) \<longrightarrow>
              (\<exists>me subs ts. Node me subs \<in> set (concat (map subtrees forest)) \<and>
                 id' me = m \<and> Node e ts \<in> set subs)"
    by blast
  from f b have fe: "forest = [Node ann [Node bob [Node carl []]]]" by simp
  from once m(1) have 1: "count_list (concat (map nodes forest)) carl = 1" by blast
  from roots m(4,5) have 2: "\<exists>ts. Node ann ts \<in> set forest" by blast
  from under m(1,2,3) have 3: "\<exists>me subs ts. Node me subs \<in> set (concat (map subtrees forest)) \<and>
      id' me = ''b2'' \<and> Node carl ts \<in> set subs" by blast
  from d n ac b 1 2 3 show ?thesis unfolding fe by blast
qed

end
